theory Spec2Isabelle
  imports Complex_Main
begin

section \<open>Board and ship model (src/utils/boardUtils.ts, src/types.ts)\<close>

text \<open>
  JavaScript numbers that index the grid are modelled as \<open>int\<close>; a read outside an
  array yields \<open>undefined\<close> and the following property access throws a TypeError.
  Every function that can throw returns an \<open>option\<close>, with \<open>None\<close> for the throw.
\<close>

datatype CellState = CEmpty | CShip | CHit | CMiss | CSunk

record Cell =
  state :: CellState
  shipId :: "int option"

type_synonym Board = "Cell list list"

record Ship =
  id' :: int
  length' :: int
  hits' :: int
  sunk :: bool
  placed :: "bool option"

datatype ShotResult = Hit | Miss | Sunk

definition BOARD_SIZE :: int where
  "BOARD_SIZE = 10"

definition SHIP_LENGTHS :: "int list" where
  "SHIP_LENGTHS = [5, 4, 3, 3, 2]"

definition createEmptyBoard :: Board where
  "createEmptyBoard =
     replicate (nat BOARD_SIZE) (replicate (nat BOARD_SIZE) \<lparr>state = CEmpty, shipId = None\<rparr>)"

definition createShips :: "Ship list" where
  "createShips =
     map (\<lambda>(index, len). \<lparr>id' = int index, length' = len, hits' = 0, sunk = False,
                            placed = Some False\<rparr>)
         (enumerate 0 SHIP_LENGTHS)"

text \<open>\<open>board[row][col]\<close>: \<open>None\<close> when the row or the cell is \<open>undefined\<close>.\<close>

definition cellAt :: "Board \<Rightarrow> int \<Rightarrow> int \<Rightarrow> Cell option" where
  "cellAt board r c =
     (if 0 \<le> r \<and> r < int (length board)
      then (if 0 \<le> c \<and> c < int (length (board ! nat r))
            then Some (board ! nat r ! nat c) else None)
      else None)"

text \<open>\<open>board[row][col] = cell\<close> for a position inside the grid.\<close>

definition setCell :: "Board \<Rightarrow> int \<Rightarrow> int \<Rightarrow> Cell \<Rightarrow> Board" where
  "setCell board r c cell = board[nat r := (board ! nat r)[nat c := cell]]"

text \<open>
  The loop \<open>for (i = 0; i < length; i++) if (cell.state !== 'empty') return false\<close>,
  over the cells it visits in order; it stops at the first cell that is not empty and
  throws where a visited cell does not exist.
\<close>

fun allEmpty :: "Board \<Rightarrow> (int \<times> int) list \<Rightarrow> bool option" where
  "allEmpty board [] = Some True"
| "allEmpty board ((r, c) # ps) =
     (case cellAt board r c of
        None \<Rightarrow> None
      | Some cell \<Rightarrow> if state cell \<noteq> CEmpty then Some False else allEmpty board ps)"

text \<open>The cells a ship of the given length covers from its origin.\<close>

definition shipCells :: "int \<Rightarrow> int \<Rightarrow> int \<Rightarrow> bool \<Rightarrow> (int \<times> int) list" where
  "shipCells row col len horizontal =
     map (\<lambda>i. if horizontal then (row, col + int i) else (row + int i, col)) [0..<nat len]"

definition canPlaceShip :: "Board \<Rightarrow> int \<Rightarrow> int \<Rightarrow> int \<Rightarrow> bool \<Rightarrow> bool option" where
  "canPlaceShip board row col len horizontal =
     (if horizontal
      then (if col + len > BOARD_SIZE then Some False
            else allEmpty board (shipCells row col len True))
      else (if row + len > BOARD_SIZE then Some False
            else allEmpty board (shipCells row col len False)))"

text \<open>
  \<open>placeShip\<close> writes \<open>{ state: 'ship', shipId }\<close> into each covered cell. It has no
  check of its own; a write outside the grid (a missing row throws, a column past the end
  grows the row array) is outside the board model and is \<open>None\<close> here.
\<close>

fun placeCells :: "Board \<Rightarrow> (int \<times> int) list \<Rightarrow> int \<Rightarrow> Board option" where
  "placeCells board [] sid = Some board"
| "placeCells board ((r, c) # ps) sid =
     (case cellAt board r c of
        None \<Rightarrow> None
      | Some _ \<Rightarrow> placeCells (setCell board r c \<lparr>state = CShip, shipId = Some sid\<rparr>) ps sid)"

definition placeShip :: "Board \<Rightarrow> int \<Rightarrow> int \<Rightarrow> int \<Rightarrow> bool \<Rightarrow> int \<Rightarrow> Board option" where
  "placeShip board row col len horizontal sid =
     placeCells board (shipCells row col len horizontal) sid"

text \<open>A grid of exactly \<open>BOARD_SIZE\<close> rows of \<open>BOARD_SIZE\<close> cells.\<close>

definition wfBoard :: "Board \<Rightarrow> bool" where
  "wfBoard board \<longleftrightarrow>
     length board = nat BOARD_SIZE \<and> list_all (\<lambda>rw. length rw = nat BOARD_SIZE) board"

text \<open>The words of the specification: the cell exists inside the grid and is empty.\<close>

definition inBoundsEmpty :: "Board \<Rightarrow> int \<times> int \<Rightarrow> bool" where
  "inBoundsEmpty board p \<longleftrightarrow>
     (case p of (r, c) \<Rightarrow>
        0 \<le> r \<and> r < BOARD_SIZE \<and> 0 \<le> c \<and> c < BOARD_SIZE \<and>
        (case cellAt board r c of None \<Rightarrow> False | Some cell \<Rightarrow> state cell = CEmpty))"

section \<open>Board model: shot resolution\<close>

text \<open>
  \<open>processShot\<close> mutates the cell object and the ship object in place. Every board
  constructor of the repository (\<open>createEmptyBoard\<close>, \<open>placeShip\<close>) stores a fresh
  object at each position and \<open>createShips\<close> a fresh object per ship, so no two
  positions share a cell; the model updates the one position and the one roster entry.
\<close>

definition sinkCell :: "int \<Rightarrow> Cell \<Rightarrow> Cell" where
  "sinkCell sid cell = (if shipId cell = Some sid then cell\<lparr>state := CSunk\<rparr> else cell)"

text \<open>
  \<open>markShipAsSunk\<close> visits rows and columns \<open>0 .. BOARD_SIZE - 1\<close>; a missing row or
  cell throws.
\<close>

definition markShipAsSunk :: "Board \<Rightarrow> int \<Rightarrow> Board option" where
  "markShipAsSunk board sid =
     (if list_all (\<lambda>r. r < length board \<and> nat BOARD_SIZE \<le> length (board ! r))
                  [0..<nat BOARD_SIZE]
      then Some (map (\<lambda>rw. map (sinkCell sid) (take (nat BOARD_SIZE) rw) @ drop (nat BOARD_SIZE) rw)
                     (take (nat BOARD_SIZE) board) @ drop (nat BOARD_SIZE) board)
      else None)"

text \<open>\<open>ships.find(s => s.id === shipId)\<close>, as the index of the first match.\<close>

fun findShipIndex :: "Ship list \<Rightarrow> int \<Rightarrow> nat option" where
  "findShipIndex [] sid = None"
| "findShipIndex (s # ss) sid =
     (if id' s = sid then Some 0 else map_option Suc (findShipIndex ss sid))"

definition processShot ::
  "Board \<Rightarrow> Ship list \<Rightarrow> int \<Rightarrow> int \<Rightarrow> (ShotResult \<times> Board \<times> Ship list) option" where
  "processShot board ships row col =
     (case cellAt board row col of
        None \<Rightarrow> None
      | Some cell \<Rightarrow>
          if state cell = CShip then
            (let board1 = setCell board row col (cell\<lparr>state := CHit\<rparr>) in
             case (case shipId cell of
                     None \<Rightarrow> None
                   | Some sid \<Rightarrow> map_option (\<lambda>k. (sid, k)) (findShipIndex ships sid)) of
               None \<Rightarrow> Some (Hit, board1, ships)
             | Some (sid, k) \<Rightarrow>
                 (let ship = (ships ! k)\<lparr>hits' := hits' (ships ! k) + 1\<rparr> in
                  if hits' ship = length' ship then
                    (case markShipAsSunk board1 sid of
                       None \<Rightarrow> None
                     | Some board2 \<Rightarrow> Some (Sunk, board2, ships[k := ship\<lparr>sunk := True\<rparr>]))
                  else Some (Hit, board1, ships[k := ship])))
          else Some (Miss, setCell board row col (cell\<lparr>state := CMiss\<rparr>), ships))"

definition allShipsSunk :: "Ship list \<Rightarrow> bool" where
  "allShipsSunk ships = list_all sunk ships"

text \<open>The game loop fires shot after shot; an exception ends the run.\<close>

fun fireAll ::
  "Board \<Rightarrow> Ship list \<Rightarrow> (int \<times> int) list \<Rightarrow> (ShotResult list \<times> Board \<times> Ship list) option" where
  "fireAll board ships [] = Some ([], board, ships)"
| "fireAll board ships ((r, c) # ps) =
     (case processShot board ships r c of
        None \<Rightarrow> None
      | Some (res, board1, ships1) \<Rightarrow>
          (case fireAll board1 ships1 ps of
             None \<Rightarrow> None
           | Some (rs, board2, ships2) \<Rightarrow> Some (res # rs, board2, ships2)))"

text \<open>The results of the shots of a run that were fired at cells of \<open>C\<close>.\<close>

definition resultsAt :: "(int \<times> int) set \<Rightarrow> ShotResult list \<Rightarrow> (int \<times> int) list \<Rightarrow> ShotResult list" where
  "resultsAt C results shots = map fst (filter (\<lambda>(res, p). p \<in> C) (zip results shots))"

section \<open>Random placement\<close>

text \<open>
  \<open>Math.random()\<close> is the ambient source of randomness: an infinite sequence of draws and
  the position of the next one. Draws are idealised as rationals; the contract of
  \<open>Math.random\<close> puts each in \<open>[0, 1)\<close> (\<open>unitDraws\<close>). Arithmetic on a draw is
  exact here and in IEEE doubles in the code, so for a draw next to a boundary the code
  can take the neighbouring row, column or candidate; the statements below either hold
  for every draw or fix the draw 0, where both agree.
\<close>

type_synonym rng = "(nat \<Rightarrow> rat) \<times> nat"

definition Math_random :: "rng \<Rightarrow> rat \<times> rng" where
  "Math_random g = (fst g (snd g), (fst g, Suc (snd g)))"

definition unitDraws :: "rng \<Rightarrow> bool" where
  "unitDraws g \<longleftrightarrow> (\<forall>n. 0 \<le> fst g n \<and> fst g n < 1)"

text \<open>
  The loop \<open>while (!placed && attempts < 100)\<close> of \<open>placeShipsRandomly\<close> for one ship:
  three draws per attempt (orientation, row, column).
\<close>

function placeAttempts :: "Board \<Rightarrow> Ship \<Rightarrow> rng \<Rightarrow> bool \<Rightarrow> nat \<Rightarrow> (Board \<times> rng) option" where
  "placeAttempts board ship g wasPlaced attempts =
     (if \<not> wasPlaced \<and> attempts < 100 then
        (case Math_random g of (u1, g1) \<Rightarrow>
         case Math_random g1 of (u2, g2) \<Rightarrow>
         case Math_random g2 of (u3, g3) \<Rightarrow>
           (let horizontal = (u1 < 1 / 2);
                row = \<lfloor>u2 * of_int BOARD_SIZE\<rfloor>;
                col = \<lfloor>u3 * of_int BOARD_SIZE\<rfloor>
            in case canPlaceShip board row col (length' ship) horizontal of
                 None \<Rightarrow> None
               | Some True \<Rightarrow>
                   (case placeShip board row col (length' ship) horizontal (id' ship) of
                      None \<Rightarrow> None
                    | Some board1 \<Rightarrow> placeAttempts board1 ship g3 True (attempts + 1))
               | Some False \<Rightarrow> placeAttempts board ship g3 False (attempts + 1)))
      else Some (board, g))"
  by pat_completeness auto
termination
  by (relation "measure (\<lambda>(board, ship, g, wasPlaced, attempts). 100 - attempts)") auto

fun placeShipsRandomly :: "Board \<Rightarrow> Ship list \<Rightarrow> rng \<Rightarrow> (Board \<times> rng) option" where
  "placeShipsRandomly board [] g = Some (board, g)"
| "placeShipsRandomly board (ship # ships) g =
     (case placeAttempts board ship g False 0 of
        None \<Rightarrow> None
      | Some (board1, g1) \<Rightarrow> placeShipsRandomly board1 ships g1)"

text \<open>A board with no empty cell, and a roster of one ship of length 2.\<close>

definition fullBoard :: Board where
  "fullBoard = replicate 10 (replicate 10 \<lparr>state = CShip, shipId = Some 9\<rparr>)"

definition oneShip :: "Ship list" where
  "oneShip = [\<lparr>id' = 0, length' = 2, hits' = 0, sunk = False, placed = Some False\<rparr>]"

text \<open>Scenario A: the length-3 ship with id 2 placed horizontally at row 4, columns 2 to 4.\<close>

definition scenarioBoard :: Board where
  "scenarioBoard =
     (case placeShip createEmptyBoard 4 2 3 True 2 of Some b \<Rightarrow> b | None \<Rightarrow> createEmptyBoard)"

section \<open>Targeting engine (src/utils/aiUtils.ts)\<close>

text \<open>
  The engine is a class with nine mutable fields; each method takes the state and
  returns the new one. \<open>shotsFired\<close> and \<open>misses\<close> are sets of keys
  \<open>`${row},${col}`\<close>; the key determines the coordinate, so they are sets of
  coordinates here. Coordinates are compared field by field everywhere in the source.
\<close>

datatype Coord = Coord (row: int) (col: int)

datatype Mode = Hunt | Target

datatype LineType = Horizontal | Vertical

datatype Direction = Up | Down | Left | Right

datatype JsError = TypeError

record BattleshipAI =
  shotsFired :: "Coord set"
  mode :: Mode
  targetQueue :: "Coord list"
  lastHit :: "Coord option"
  hits :: "Coord list"
  firstHit :: "Coord option"
  lastProbeDirection :: "LineType option"
  remainingShipSizes :: "nat list"
  misses :: "Coord set"

text \<open>The constructor.\<close>

definition newBattleshipAI :: BattleshipAI where
  "newBattleshipAI =
     \<lparr>shotsFired = {}, mode = Hunt, targetQueue = [], lastHit = None, hits = [],
      firstHit = None, lastProbeDirection = None, remainingShipSizes = [5, 4, 3, 3, 2],
      misses = {}\<rparr>"

definition reset :: "BattleshipAI \<Rightarrow> BattleshipAI" where
  "reset s =
     s\<lparr>shotsFired := {}, mode := Hunt, targetQueue := [], lastHit := None, hits := [],
       firstHit := None, lastProbeDirection := None, remainingShipSizes := [5, 4, 3, 3, 2],
       misses := {}\<rparr>"

definition hasShot :: "BattleshipAI \<Rightarrow> int \<Rightarrow> int \<Rightarrow> bool" where
  "hasShot s r c \<longleftrightarrow> Coord r c \<in> shotsFired s"

definition isValid :: "int \<Rightarrow> int \<Rightarrow> bool" where
  "isValid r c \<longleftrightarrow> r \<ge> 0 \<and> r < BOARD_SIZE \<and> c \<ge> 0 \<and> c < BOARD_SIZE"

text \<open>\<open>this.hits.some(hit => hit.row === r && hit.col === c)\<close>\<close>

definition isTrackedHit :: "BattleshipAI \<Rightarrow> int \<Rightarrow> int \<Rightarrow> bool" where
  "isTrackedHit s r c \<longleftrightarrow> list_ex (\<lambda>hit. row hit = r \<and> col hit = c) (hits s)"

text \<open>\<open>list.some(h => h.row === coord.row && h.col === coord.col)\<close>\<close>

definition someAt :: "Coord \<Rightarrow> Coord list \<Rightarrow> bool" where
  "someAt coord xs \<longleftrightarrow> list_ex (\<lambda>h. row h = row coord \<and> col h = col coord) xs"

text \<open>
  \<open>[xs[i], xs[j]] = [xs[j], xs[i]]\<close>. In the shuffle \<open>j = floor(random * (i + 1))\<close>
  lies in \<open>0 .. i\<close> for a draw in \<open>[0, 1)\<close>.
\<close>

definition swap :: "'a list \<Rightarrow> nat \<Rightarrow> nat \<Rightarrow> 'a list" where
  "swap xs i j = xs[i := xs ! j, j := xs ! i]"

text \<open>The loop \<open>for (i = length - 1; i > 0; i--)\<close> of the shuffle, from index \<open>i\<close> down.\<close>

fun shuffleFrom :: "nat \<Rightarrow> Coord list \<Rightarrow> rng \<Rightarrow> Coord list \<times> rng" where
  "shuffleFrom 0 xs g = (xs, g)"
| "shuffleFrom (Suc i) xs g =
     (case Math_random g of (u, g1) \<Rightarrow>
        shuffleFrom i (swap xs (Suc i) (nat \<lfloor>u * of_nat (Suc i + 1)\<rfloor>)) g1)"

definition getOrthogonalNeighbors :: "BattleshipAI \<Rightarrow> int \<Rightarrow> int \<Rightarrow> rng \<Rightarrow> Coord list \<times> rng" where
  "getOrthogonalNeighbors s r c g =
     (let neighbors =
            filter (\<lambda>n. isValid (row n) (col n) \<and> \<not> hasShot s (row n) (col n))
              (map (\<lambda>(dr, dc). Coord (r + dr) (c + dc)) [(-1, 0), (1, 0), (0, -1), (0, 1)])
      in shuffleFrom (length neighbors - 1) neighbors g)"

definition isHitExtendingLine :: "Coord \<Rightarrow> Coord list \<Rightarrow> bool" where
  "isHitExtendingLine hit line =
     (if length line < 2 then True
      else (let isHorizontal = list_all (\<lambda>h. row h = row (hd line)) line in
            if isHorizontal then
              (if row hit \<noteq> row (hd line) then False
               else (let cols = sort (map col line)
                     in col hit = hd cols - 1 \<or> col hit = last cols + 1))
            else
              (if col hit \<noteq> col (hd line) then False
               else (let rows = sort (map row line)
                     in row hit = hd rows - 1 \<or> row hit = last rows + 1))))"

definition wouldExtendLine :: "Coord \<Rightarrow> Coord list \<Rightarrow> bool" where
  "wouldExtendLine target line =
     (if length line < 1 then False
      else if length line = 1 then
        (let hit = hd line
         in (row target = row hit \<and> \<bar>col target - col hit\<bar> = 1) \<or>
            (col target = col hit \<and> \<bar>row target - row hit\<bar> = 1))
      else isHitExtendingLine target line)"

text \<open>
  \<open>findContinuousHits\<close>: the run that starts at the first element of the sorted list
  and ends before the first step that is not \<open>+1\<close> (the loop's \<open>break\<close>).
\<close>

fun continueFrom :: "LineType \<Rightarrow> Coord \<Rightarrow> Coord list \<Rightarrow> Coord list" where
  "continueFrom direction prev [] = []"
| "continueFrom direction prev (cur # rest) =
     (if (case direction of
            Horizontal \<Rightarrow> col cur = col prev + 1
          | Vertical \<Rightarrow> row cur = row prev + 1)
      then cur # continueFrom direction cur rest
      else [])"

fun findContinuousHits :: "Coord list \<Rightarrow> LineType \<Rightarrow> Coord list" where
  "findContinuousHits [] direction = []"
| "findContinuousHits (start # rest) direction = start # continueFrom direction start rest"

definition findSunkShipHits :: "BattleshipAI \<Rightarrow> Coord \<Rightarrow> Coord list" where
  "findSunkShipHits s lh =
     (let allHitsIncludingLast = hits s @ [lh];
          horizontalHits = sort_key col (filter (\<lambda>h. row h = row lh) allHitsIncludingLast);
          verticalHits = sort_key row (filter (\<lambda>h. col h = col lh) allHitsIncludingLast);
          horizontalLine = findContinuousHits horizontalHits Horizontal;
          verticalLine = findContinuousHits verticalHits Vertical;
          horizontalContainsLast = someAt lh horizontalLine;
          verticalContainsLast = someAt lh verticalLine
      in if horizontalContainsLast \<and> verticalContainsLast then
           (if length horizontalLine > length verticalLine then horizontalLine else verticalLine)
         else if horizontalContainsLast then horizontalLine
         else if verticalContainsLast then verticalLine
         else [lh])"

text \<open>A cell blocks a placement when it was shot and is not a tracked hit.\<close>

definition blocked :: "BattleshipAI \<Rightarrow> int \<Rightarrow> int \<Rightarrow> bool" where
  "blocked s r c \<longleftrightarrow> hasShot s r c \<and> \<not> isTrackedHit s r c"

definition canPlaceShipAt :: "BattleshipAI \<Rightarrow> int \<Rightarrow> int \<Rightarrow> nat \<Rightarrow> bool \<Rightarrow> bool" where
  "canPlaceShipAt s startRow startCol shipSize horizontal =
     list_all (\<lambda>i. let r = (if horizontal then startRow else startRow + int i);
                       c = (if horizontal then startCol + int i else startCol)
                   in isValid r c \<and> \<not> blocked s r c)
              [0..<shipSize]"

definition stepFrom :: "Direction \<Rightarrow> int \<Rightarrow> int \<Rightarrow> int \<Rightarrow> Coord" where
  "stepFrom direction r c i =
     (case direction of
        Up \<Rightarrow> Coord (r - i) c
      | Down \<Rightarrow> Coord (r + i) c
      | Left \<Rightarrow> Coord r (c - i)
      | Right \<Rightarrow> Coord r (c + i))"

definition scoreDirectionFromHit :: "BattleshipAI \<Rightarrow> int \<Rightarrow> int \<Rightarrow> Direction \<Rightarrow> nat" where
  "scoreDirectionFromHit s hitRow hitCol direction =
     sum_list
       (map (\<lambda>shipSize.
               if list_all (\<lambda>i. let p = stepFrom direction hitRow hitCol (int i)
                                 in isValid (row p) (col p) \<and> \<not> blocked s (row p) (col p))
                           [1..<shipSize]
               then shipSize else 0)
            (remainingShipSizes s))"

definition calculateCellScore :: "BattleshipAI \<Rightarrow> int \<Rightarrow> int \<Rightarrow> nat" where
  "calculateCellScore s r c =
     sum_list
       (map (\<lambda>shipSize.
               length (filter (\<lambda>startCol. canPlaceShipAt s r startCol shipSize True)
                         [max 0 (c - int shipSize + 1) .. min (BOARD_SIZE - int shipSize) c])
             + length (filter (\<lambda>startRow. canPlaceShipAt s startRow c shipSize False)
                         [max 0 (r - int shipSize + 1) .. min (BOARD_SIZE - int shipSize) r]))
            (remainingShipSizes s))"

text \<open>The cells of the grid in the order of the nested loops: by row, then by column.\<close>

definition allCells :: "Coord list" where
  "allCells = concat (map (\<lambda>r. map (\<lambda>c. Coord r c) [0..BOARD_SIZE - 1]) [0..BOARD_SIZE - 1])"

definition parityCells :: "Coord list" where
  "parityCells = filter (\<lambda>p. (row p + col p) mod 2 = 0) allCells"

text \<open>The entries pushed to \<open>cellScores\<close>: unshot cells with a positive score.\<close>

definition scoreCells :: "BattleshipAI \<Rightarrow> Coord list \<Rightarrow> (Coord \<times> nat) list" where
  "scoreCells s cells =
     filter (\<lambda>(p, score). score > 0)
       (map (\<lambda>p. (p, calculateCellScore s (row p) (col p)))
            (filter (\<lambda>p. \<not> hasShot s (row p) (col p)) cells))"

text \<open>The loop \<open>random -= cell.score; if (random <= 0) return cell.coord\<close>.\<close>

fun weightedPick :: "rat \<Rightarrow> (Coord \<times> nat) list \<Rightarrow> Coord option" where
  "weightedPick random [] = None"
| "weightedPick random ((coord, score) # cells) =
     (let random1 = random - of_nat score
      in if random1 \<le> 0 then Some coord else weightedPick random1 cells)"

text \<open>
  The end of \<open>getSmartHuntShot\<close>: the score-weighted draw among \<open>cellScores\<close>. Its
  last line indexes \<open>cellScores\<close> with \<open>floor(random * length)\<close>; an index outside the
  array would throw (\<open>None\<close>).
\<close>

definition weightedDraw :: "(Coord \<times> nat) list \<Rightarrow> rng \<Rightarrow> (Coord \<times> rng) option" where
  "weightedDraw cellScores g =
     (let totalScore = sum_list (map snd cellScores) in
      case Math_random g of (u, g1) \<Rightarrow>
        (case weightedPick (u * of_nat totalScore) cellScores of
           Some p \<Rightarrow> Some (p, g1)
         | None \<Rightarrow>
             (case Math_random g1 of (u2, g2) \<Rightarrow>
                (let idx = \<lfloor>u2 * of_nat (length cellScores)\<rfloor>
                 in if 0 \<le> idx \<and> idx < int (length cellScores)
                    then Some (fst (cellScores ! nat idx), g2)
                    else None))))"

text \<open>
  The candidates of \<open>getSmartHuntShot\<close>: the scored checkerboard cells, or the scored
  cells of the whole grid when there is none.
\<close>

definition huntCandidates :: "BattleshipAI \<Rightarrow> (Coord \<times> nat) list" where
  "huntCandidates s =
     (let cellScores = scoreCells s parityCells
      in if length cellScores = 0 then scoreCells s allCells else cellScores)"

definition getSmartHuntShot :: "BattleshipAI \<Rightarrow> rng \<Rightarrow> (Coord \<times> rng) option" where
  "getSmartHuntShot s g =
     (let cellScores = huntCandidates s
      in if length cellScores = 0 then
           (case filter (\<lambda>p. \<not> hasShot s (row p) (col p)) allCells of
              [] \<Rightarrow> Some (Coord 0 0, g)
            | p # _ \<Rightarrow> Some (p, g))
         else weightedDraw cellScores g)"

text \<open>
  \<open>Map<number, Coord[]>\<close> keeps its keys in insertion order: an association list, a
  new key appended at the end, a known key's array extended in place.
\<close>

fun addToGroup :: "int \<Rightarrow> Coord \<Rightarrow> (int \<times> Coord list) list \<Rightarrow> (int \<times> Coord list) list" where
  "addToGroup k h [] = [(k, [h])]"
| "addToGroup k h ((k1, hs) # m) =
     (if k1 = k then (k1, hs @ [h]) # m else (k1, hs) # addToGroup k h m)"

definition groupHits :: "(Coord \<Rightarrow> int) \<Rightarrow> Coord list \<Rightarrow> (int \<times> Coord list) list" where
  "groupHits key hs = foldl (\<lambda>m h. addToGroup (key h) h m) [] hs"

definition sortAlong :: "LineType \<Rightarrow> Coord list \<Rightarrow> Coord list" where
  "sortAlong t hs = (case t of Horizontal \<Rightarrow> sort_key col hs | Vertical \<Rightarrow> sort_key row hs)"

text \<open>One of the two loops of \<open>rebuildTargetQueue\<close> that look for the longest line.\<close>

fun longestIn ::
  "LineType \<Rightarrow> (int \<times> Coord list) list \<Rightarrow> (LineType \<times> Coord list) option \<times> nat
   \<Rightarrow> (LineType \<times> Coord list) option \<times> nat" where
  "longestIn t [] acc = acc"
| "longestIn t ((k, hs) # groups) (longestLine, longestLength) =
     (if length hs \<ge> 2 then
        (let continuous = findContinuousHits (sortAlong t hs) t
         in if length continuous > longestLength
            then longestIn t groups (Some (t, continuous), length continuous)
            else longestIn t groups (longestLine, longestLength))
      else longestIn t groups (longestLine, longestLength))"

text \<open>
  The two pushes that extend a line past its ends: first the cell after the largest
  column (or row), then the cell before the smallest, each only when it is on the board
  and not shot. The source repeats this code in \<open>rebuildTargetQueue\<close> and in the hit
  branches of \<open>reportResult\<close>.
\<close>

definition extensionCells :: "BattleshipAI \<Rightarrow> LineType \<Rightarrow> Coord list \<Rightarrow> Coord list" where
  "extensionCells s t hs =
     (case t of
        Horizontal \<Rightarrow>
          (let r = row (hd hs); cols = sort (map col hs); minCol = hd cols; maxCol = last cols
           in (if isValid r (maxCol + 1) \<and> \<not> hasShot s r (maxCol + 1)
               then [Coord r (maxCol + 1)] else []) @
              (if isValid r (minCol - 1) \<and> \<not> hasShot s r (minCol - 1)
               then [Coord r (minCol - 1)] else []))
      | Vertical \<Rightarrow>
          (let c = col (hd hs); rows = sort (map row hs); minRow = hd rows; maxRow = last rows
           in (if isValid (maxRow + 1) c \<and> \<not> hasShot s (maxRow + 1) c
               then [Coord (maxRow + 1) c] else []) @
              (if isValid (minRow - 1) c \<and> \<not> hasShot s (minRow - 1) c
               then [Coord (minRow - 1) c] else [])))"

text \<open>The neighbour of a hit in a direction, kept when on the board and not shot, with its score.\<close>

definition scoredNeighbor :: "BattleshipAI \<Rightarrow> Coord \<Rightarrow> Direction \<Rightarrow> (Coord \<times> nat) list" where
  "scoredNeighbor s hit direction =
     (let p = stepFrom direction (row hit) (col hit) 1
      in if isValid (row p) (col p) \<and> \<not> hasShot s (row p) (col p)
         then [(p, scoreDirectionFromHit s (row hit) (col hit) direction)] else [])"

definition perpendicularTargets :: "BattleshipAI \<Rightarrow> LineType \<Rightarrow> Coord list \<Rightarrow> (Coord \<times> nat) list" where
  "perpendicularTargets s t hs =
     concat (map (\<lambda>hit. case t of
                          Horizontal \<Rightarrow> scoredNeighbor s hit Up @ scoredNeighbor s hit Down
                        | Vertical \<Rightarrow> scoredNeighbor s hit Left @ scoredNeighbor s hit Right)
                 hs)"

text \<open>\<open>xs.sort((a, b) => b.score - a.score)\<close>: stable, by descending score.\<close>

definition sortByScoreDesc :: "(Coord \<times> nat) list \<Rightarrow> (Coord \<times> nat) list" where
  "sortByScoreDesc xs = sort_key (\<lambda>x. - int (snd x)) xs"

text \<open>The scored neighbours of all hits, without a coordinate already added.\<close>

definition addNeighbor ::
  "BattleshipAI \<Rightarrow> Coord \<Rightarrow> (Coord \<times> nat) list \<Rightarrow> Direction \<Rightarrow> (Coord \<times> nat) list" where
  "addNeighbor s hit acc direction =
     (case scoredNeighbor s hit direction of
        [] \<Rightarrow> acc
      | n # _ \<Rightarrow> if someAt (fst n) (map fst acc) then acc else acc @ [n])"

definition allNeighbors :: "BattleshipAI \<Rightarrow> (Coord \<times> nat) list" where
  "allNeighbors s =
     foldl (\<lambda>acc hit. foldl (addNeighbor s hit) acc [Up, Down, Left, Right]) [] (hits s)"

definition rebuildTargetQueue :: "BattleshipAI \<Rightarrow> BattleshipAI" where
  "rebuildTargetQueue s =
     (let rowGroups = groupHits row (hits s);
          colGroups = groupHits col (hits s);
          longestLine = fst (longestIn Vertical colGroups (longestIn Horizontal rowGroups (None, 0)));
          q1 = (case longestLine of
                  None \<Rightarrow> targetQueue s
                | Some (t, lineHits) \<Rightarrow>
                    (let q = targetQueue s @ extensionCells s t lineHits
                     in if q = []
                        then q @ map fst (sortByScoreDesc (perpendicularTargets s t lineHits))
                        else q));
          q2 = (if q1 = [] then q1 @ map fst (sortByScoreDesc (allNeighbors s)) else q1)
      in s\<lparr>targetQueue := q2\<rparr>)"

definition linesOf :: "LineType \<Rightarrow> (int \<times> Coord list) list \<Rightarrow> Coord list list" where
  "linesOf t groups =
     concat (map (\<lambda>(k, hs).
                    if length hs \<ge> 2 then
                      (let continuous = findContinuousHits (sortAlong t hs) t
                       in if length continuous \<ge> 2 then [continuous] else [])
                    else [])
                 groups)"

definition findAllLines :: "BattleshipAI \<Rightarrow> Coord list list" where
  "findAllLines s =
     linesOf Horizontal (groupHits row (hits s)) @ linesOf Vertical (groupHits col (hits s))"

text \<open>\<open>line.every(h => h.row === line[0].row)\<close> decides the axis of a line.\<close>

definition axisOf :: "Coord list \<Rightarrow> LineType" where
  "axisOf line = (if list_all (\<lambda>h. row h = row (hd line)) line then Horizontal else Vertical)"

text \<open>
  \<open>queue.unshift(target)\<close> for each end-extension of the line that is not in the queue
  yet.
\<close>

definition unshiftExtensions :: "BattleshipAI \<Rightarrow> Coord list \<Rightarrow> Coord list \<Rightarrow> Coord list" where
  "unshiftExtensions s queue line =
     foldl (\<lambda>q target. if someAt target q then q else target # q) queue
           (extensionCells s (axisOf line) line)"

text \<open>The queue after a first hit: its neighbours on the board and not shot, by score.\<close>

definition firstHitQueue :: "BattleshipAI \<Rightarrow> Coord \<Rightarrow> Coord list" where
  "firstHitQueue s coord =
     map fst (sortByScoreDesc (concat (map (scoredNeighbor s coord) [Up, Down, Left, Right])))"

text \<open>
  \<open>lines.reduce((longest, current) => current.length > longest.length ? current : longest)\<close>
  on a non-empty array; on an empty array \<open>reduce\<close> without an initial element throws.
\<close>

definition bestLineOf :: "Coord list list \<Rightarrow> Coord list" where
  "bestLineOf lines =
     foldl (\<lambda>longest current. if length current > length longest then current else longest)
           (hd lines) (tl lines)"

text \<open>
  The branch \<open>result === 'hit'\<close> of \<open>reportResult\<close>, by the number of tracked hits
  after the push. An exception leaves the fields as they were written before it: the
  state is returned with the error.
\<close>

definition reportSecondHit :: "BattleshipAI \<Rightarrow> Coord \<Rightarrow> BattleshipAI" where
  "reportSecondHit s coord =
     (let fh = hd (hits s) in
      if row coord = row fh
      then s\<lparr>targetQueue := extensionCells s Horizontal [fh, coord]\<rparr>
      else if col coord = col fh
      then s\<lparr>targetQueue := extensionCells s Vertical [fh, coord]\<rparr>
      else s)"

definition reprioritized :: "BattleshipAI \<Rightarrow> Coord \<Rightarrow> Coord list" where
  "reprioritized s coord =
     (let updatedLines = findAllLines s;
          newLines = filter (someAt coord) updatedLines;
          prioritized = filter (\<lambda>t. list_ex (wouldExtendLine t) newLines) (targetQueue s);
          others = filter (\<lambda>t. \<not> list_ex (wouldExtendLine t) newLines) (targetQueue s);
          q = prioritized @ others
      in if length prioritized = 0 \<and> length newLines > 0
         then foldl (unshiftExtensions s) q newLines
         else q)"

definition reportFurtherHit :: "BattleshipAI \<Rightarrow> Coord \<Rightarrow> BattleshipAI \<times> JsError option" where
  "reportFurtherHit s coord =
     (let lines = findAllLines s in
      if lines = [] then (s, Some TypeError)
      else
        (let bestLine = bestLineOf lines;
             isPartOfBestLine = someAt coord bestLine;
             isExtendingBestLine = (isPartOfBestLine \<and> isHitExtendingLine coord bestLine)
         in if isExtendingBestLine \<and> length bestLine \<ge> 2
            then (s\<lparr>targetQueue := extensionCells s (axisOf bestLine) bestLine\<rparr>, None)
            else (s\<lparr>targetQueue := reprioritized s coord\<rparr>, None)))"

definition reportHit :: "BattleshipAI \<Rightarrow> Coord \<Rightarrow> BattleshipAI \<times> JsError option" where
  "reportHit s0 coord =
     (let s = s0\<lparr>mode := Target, lastHit := Some coord, hits := hits s0 @ [coord]\<rparr> in
      if length (hits s) = 1 then (s\<lparr>targetQueue := firstHitQueue s coord\<rparr>, None)
      else if length (hits s) = 2 then (reportSecondHit s coord, None)
      else reportFurtherHit s coord)"

definition reportMiss :: "BattleshipAI \<Rightarrow> Coord \<Rightarrow> BattleshipAI" where
  "reportMiss s0 coord =
     (let s = s0\<lparr>misses := insert coord (misses s0)\<rparr> in
      if length (hits s) > 0 \<and> length (targetQueue s) > 0 then
        (let lines = findAllLines s in
         if length lines > 0 then
           (let hasGoodTarget =
                  list_ex (\<lambda>t. list_ex (wouldExtendLine t) lines) (targetQueue s)
            in if \<not> hasGoodTarget then rebuildTargetQueue (s\<lparr>targetQueue := []\<rparr>) else s)
         else s)
      else s)"

text \<open>
  The legacy path without sunk coordinates. \<open>Math.max(...[])\<close> is \<open>-Infinity\<close>, and
  \<open>slice(0, -Infinity)\<close> is empty.
\<close>

definition guessedHits :: "BattleshipAI \<Rightarrow> Coord \<Rightarrow> Coord list" where
  "guessedHits s coord =
     (let sunkShipHits = findSunkShipHits s coord in
      case remainingShipSizes s of
        [] \<Rightarrow> []
      | n # ns \<Rightarrow>
          (let maxRemainingShip = foldl max n ns;
               sunkShipSize = (if length sunkShipHits > maxRemainingShip
                               then maxRemainingShip else length sunkShipHits)
           in take sunkShipSize sunkShipHits))"

definition reportSunk :: "BattleshipAI \<Rightarrow> Coord \<Rightarrow> Coord list option \<Rightarrow> BattleshipAI" where
  "reportSunk s coord sunkCoords =
     (let hitsToRemove =
            (case sunkCoords of
               None \<Rightarrow> guessedHits s coord
             | Some cs \<Rightarrow>
                 if length cs > 0 then filter (\<lambda>hit. someAt hit cs) (hits s)
                 else guessedHits s coord);
          sunkShipSize = length hitsToRemove;
          s1 = s\<lparr>remainingShipSizes := remove1 sunkShipSize (remainingShipSizes s)\<rparr>;
          s2 = s1\<lparr>hits := filter (\<lambda>hit. \<not> someAt hit hitsToRemove) (hits s1)\<rparr>
      in if length (hits s2) > 0
         then rebuildTargetQueue (s2\<lparr>mode := Target, targetQueue := []\<rparr>)
         else s2\<lparr>mode := Hunt, targetQueue := [], lastHit := None, firstHit := None,
                 lastProbeDirection := None\<rparr>)"

definition reportResult ::
  "BattleshipAI \<Rightarrow> Coord \<Rightarrow> ShotResult \<Rightarrow> Coord list option \<Rightarrow> BattleshipAI \<times> JsError option" where
  "reportResult s coord result sunkCoords =
     (let s1 = s\<lparr>shotsFired := insert (Coord (row coord) (col coord)) (shotsFired s)\<rparr> in
      case result of
        Hit \<Rightarrow> reportHit s1 coord
      | Miss \<Rightarrow> (reportMiss s1 coord, None)
      | Sunk \<Rightarrow> (reportSunk s1 coord sunkCoords, None))"

text \<open>
  \<open>this.hits.filter(hit => this.getOrthogonalNeighbors(hit.row, hit.col).length > 0)\<close>,
  each call shuffling with fresh draws.
\<close>

fun keepValidHits :: "BattleshipAI \<Rightarrow> Coord list \<Rightarrow> rng \<Rightarrow> Coord list \<times> rng" where
  "keepValidHits s [] g = ([], g)"
| "keepValidHits s (hit # rest) g =
     (case getOrthogonalNeighbors s (row hit) (col hit) g of (neighbors, g1) \<Rightarrow>
      case keepValidHits s rest g1 of (kept, g2) \<Rightarrow>
        (if length neighbors > 0 then hit # kept else kept, g2))"

text \<open>
  The blocks of \<open>getNextShot\<close> for an engine with tracked hits: the queue is rebuilt
  when it is empty; when it stays empty the stranded hits are dropped and a hunt shot is
  taken.
\<close>

definition ensureQueue :: "BattleshipAI \<Rightarrow> BattleshipAI" where
  "ensureQueue s =
     (let s1 = s\<lparr>mode := Target\<rparr>
      in if length (targetQueue s1) = 0 then rebuildTargetQueue s1 else s1)"

definition strandedShot :: "BattleshipAI \<Rightarrow> rng \<Rightarrow> (Coord \<times> BattleshipAI \<times> rng) option" where
  "strandedShot s2 g =
     (case keepValidHits s2 (hits s2) g of (validHits, g1) \<Rightarrow>
        (let s3 = (if length validHits < length (hits s2) then s2\<lparr>hits := validHits\<rparr> else s2)
         in if length (hits s3) = 0 then
              (let s4 = s3\<lparr>mode := Hunt\<rparr>
               in case getSmartHuntShot s4 g1 of
                    None \<Rightarrow> None
                  | Some (shot, g2) \<Rightarrow> Some (shot, s4, g2))
            else
              (case getSmartHuntShot s3 g1 of
                 None \<Rightarrow> None
               | Some (shot, g2) \<Rightarrow> Some (shot, s3, g2))))"

definition getNextShot :: "BattleshipAI \<Rightarrow> rng \<Rightarrow> (Coord \<times> BattleshipAI \<times> rng) option" where
  "getNextShot s g =
     (if length (hits s) > 0 then
        (let s2 = ensureQueue s
         in case targetQueue s2 of
              shot # queue \<Rightarrow> Some (shot, s2\<lparr>targetQueue := queue\<rparr>, g)
            | [] \<Rightarrow> strandedShot s2 g)
      else
        (let s1 = s\<lparr>mode := Hunt\<rparr>
         in case getSmartHuntShot s1 g of
              None \<Rightarrow> None
            | Some (shot, g1) \<Rightarrow> Some (shot, s1, g1)))"

text \<open>
  A session: each turn asks for the next shot and reports its outcome before the next
  request. The caller of \<open>reportResult\<close> does not catch its exception; the engine is
  used again in the state the exception left.
\<close>

fun playTurns ::
  "BattleshipAI \<Rightarrow> rng \<Rightarrow> (ShotResult \<times> Coord list option) list
   \<Rightarrow> (Coord list \<times> BattleshipAI \<times> rng) option" where
  "playTurns s g [] = Some ([], s, g)"
| "playTurns s g ((result, sunkCoords) # rest) =
     (case getNextShot s g of
        None \<Rightarrow> None
      | Some (shot, s1, g1) \<Rightarrow>
          (case playTurns (fst (reportResult s1 shot result sunkCoords)) g1 rest of
             None \<Rightarrow> None
           | Some (shots, s2, g2) \<Rightarrow> Some (shot # shots, s2, g2)))"

text \<open>
  Any sequence of calls of the two public methods: \<open>playTurns\<close> is the special case
  in which requests and reports alternate and each report is of the coordinate just
  returned. The result lists the coordinates the requests returned.
\<close>

datatype Call = Request | Report Coord ShotResult "Coord list option"

fun runCalls ::
  "BattleshipAI \<Rightarrow> rng \<Rightarrow> Call list \<Rightarrow> (Coord list \<times> BattleshipAI \<times> rng) option" where
  "runCalls s g [] = Some ([], s, g)"
| "runCalls s g (Request # rest) =
     (case getNextShot s g of
        None \<Rightarrow> None
      | Some (shot, s1, g1) \<Rightarrow>
          (case runCalls s1 g1 rest of
             None \<Rightarrow> None
           | Some (shots, s2, g2) \<Rightarrow> Some (shot # shots, s2, g2)))"
| "runCalls s g (Report coord result sunkCoords # rest) =
     runCalls (fst (reportResult s coord result sunkCoords)) g rest"

text \<open>Scenario C: a fresh engine is told of hits at (3,3) and (3,4).\<close>

definition scenarioC :: BattleshipAI where
  "scenarioC =
     fst (reportResult (fst (reportResult newBattleshipAI (Coord 3 3) Hit None))
            (Coord 3 4) Hit None)"

text \<open>Scenario D: then (3,5) is reported sunk, with the three cells of the ship.\<close>

definition scenarioD :: BattleshipAI where
  "scenarioD =
     fst (reportResult scenarioC (Coord 3 5) Sunk (Some [Coord 3 3, Coord 3 4, Coord 3 5]))"

text \<open>A cell that was not shot and has a positive score.\<close>

definition scoredAt :: "BattleshipAI \<Rightarrow> Coord \<Rightarrow> bool" where
  "scoredAt s p \<longleftrightarrow> \<not> hasShot s (row p) (col p) \<and> calculateCellScore s (row p) (col p) > 0"


text \<open>
  A well-formed target queue holds each cell once, and only cells that are on the board
  and not shot. The engine invariant: the queue is well formed, every fired coordinate is
  a cell of the grid, and the queue is empty when no hit is tracked.
\<close>

definition cellOK :: "BattleshipAI \<Rightarrow> Coord \<Rightarrow> bool" where
  "cellOK s p \<longleftrightarrow> isValid (row p) (col p) \<and> \<not> hasShot s (row p) (col p)"

definition queueOK :: "BattleshipAI \<Rightarrow> Coord list \<Rightarrow> bool" where
  "queueOK s q \<longleftrightarrow> distinct q \<and> list_all (cellOK s) q"

definition engineInv :: "BattleshipAI \<Rightarrow> bool" where
  "engineInv s \<longleftrightarrow>
     queueOK s (targetQueue s) \<and> shotsFired s \<subseteq> set allCells \<and>
     (targetQueue s = [] \<or> hits s \<noteq> [])"

text \<open>The coordinate along which the hits of a line differ.\<close>

definition alongAxis :: "LineType \<Rightarrow> Coord \<Rightarrow> int" where
  "alongAxis t = (case t of Horizontal \<Rightarrow> col | Vertical \<Rightarrow> row)"

text \<open>A line found by the rebuild: not empty, its hits at different positions along its axis.\<close>

definition lineOK :: "LineType \<Rightarrow> Coord list \<Rightarrow> bool" where
  "lineOK t hs \<longleftrightarrow> hs \<noteq> [] \<and> distinct (map (alongAxis t) hs)"

section \<open>Board model: canPlaceShip\<close>

lemma cellAt_wf:
  assumes "wfBoard board" "0 \<le> r" "r < 10" "0 \<le> c" "c < 10"
  shows "\<exists>cell. cellAt board r c = Some cell"
proof -
  from assms(1) have len: "length board = 10" and rows: "\<forall>rw \<in> set board. length rw = 10"
    by (auto simp: wfBoard_def BOARD_SIZE_def list_all_iff)
  from assms(2,3) len have "nat r < length board" by simp
  then have "board ! nat r \<in> set board" by (rule nth_mem)
  with rows have "length (board ! nat r) = 10" by blast
  with assms len show ?thesis by (simp add: cellAt_def)
qed

lemma allEmpty_iff:
  assumes "\<forall>p \<in> set ps. \<exists>cell. cellAt board (fst p) (snd p) = Some cell"
  shows "allEmpty board ps =
         Some (\<forall>p \<in> set ps. \<exists>cell. cellAt board (fst p) (snd p) = Some cell \<and> state cell = CEmpty)"
  using assms
proof (induction ps)
  case Nil
  then show ?case by simp
next
  case (Cons p ps)
  obtain r c where p: "p = (r, c)" by (cases p)
  from Cons.prems obtain cell where cell: "cellAt board r c = Some cell"
    by (auto simp: p)
  from Cons have IH: "allEmpty board ps =
      Some (\<forall>p \<in> set ps. \<exists>cell. cellAt board (fst p) (snd p) = Some cell \<and> state cell = CEmpty)"
    by simp
  show ?case by (simp add: p cell IH)
qed

lemma canPlaceShip_spec:
  assumes wf: "wfBoard board"
    and i: "0 \<le> i" "i < 10" and j: "0 \<le> j" "j < 10" and len: "1 \<le> len"
  shows "canPlaceShip board i j len horizontal =
         Some (\<forall>p \<in> set (shipCells i j len horizontal). inBoundsEmpty board p)"
proof (cases horizontal)
  case True
  show ?thesis
  proof (cases "j + len > 10")
    case over: True
    let ?p = "(i, j + int (nat len - 1))"
    have "?p \<in> set (shipCells i j len True)"
      using len by (auto simp: shipCells_def intro!: image_eqI[where x="nat len - 1"])
    moreover have "\<not> inBoundsEmpty board ?p"
      using over len by (simp add: inBoundsEmpty_def BOARD_SIZE_def)
    ultimately show ?thesis
      using True over by (auto simp: canPlaceShip_def BOARD_SIZE_def)
  next
    case under: False
    have inb: "\<forall>p \<in> set (shipCells i j len True).
                 0 \<le> fst p \<and> fst p < 10 \<and> 0 \<le> snd p \<and> snd p < 10"
      using under i j by (auto simp: shipCells_def)
    then have ex: "\<forall>p \<in> set (shipCells i j len True).
                 \<exists>cell. cellAt board (fst p) (snd p) = Some cell"
      using cellAt_wf[OF wf] by blast
    have "(\<forall>p \<in> set (shipCells i j len True).
             \<exists>cell. cellAt board (fst p) (snd p) = Some cell \<and> state cell = CEmpty)
          = (\<forall>p \<in> set (shipCells i j len True). inBoundsEmpty board p)"
      using inb by (fastforce simp: inBoundsEmpty_def BOARD_SIZE_def split: option.splits)
    then show ?thesis
      using True under allEmpty_iff[OF ex] by (simp add: canPlaceShip_def BOARD_SIZE_def)
  qed
next
  case False
  show ?thesis
  proof (cases "i + len > 10")
    case over: True
    let ?p = "(i + int (nat len - 1), j)"
    have "?p \<in> set (shipCells i j len False)"
      using len by (auto simp: shipCells_def intro!: image_eqI[where x="nat len - 1"])
    moreover have "\<not> inBoundsEmpty board ?p"
      using over len by (simp add: inBoundsEmpty_def BOARD_SIZE_def)
    ultimately show ?thesis
      using False over by (auto simp: canPlaceShip_def BOARD_SIZE_def)
  next
    case under: False
    have inb: "\<forall>p \<in> set (shipCells i j len False).
                 0 \<le> fst p \<and> fst p < 10 \<and> 0 \<le> snd p \<and> snd p < 10"
      using under i j by (auto simp: shipCells_def)
    then have ex: "\<forall>p \<in> set (shipCells i j len False).
                 \<exists>cell. cellAt board (fst p) (snd p) = Some cell"
      using cellAt_wf[OF wf] by blast
    have "(\<forall>p \<in> set (shipCells i j len False).
             \<exists>cell. cellAt board (fst p) (snd p) = Some cell \<and> state cell = CEmpty)
          = (\<forall>p \<in> set (shipCells i j len False). inBoundsEmpty board p)"
      using inb by (fastforce simp: inBoundsEmpty_def BOARD_SIZE_def split: option.splits)
    then show ?thesis
      using False under allEmpty_iff[OF ex] by (simp add: canPlaceShip_def BOARD_SIZE_def)
  qed
qed


text \<open>
  C8. On a 10 by 10 board, for an origin inside the grid and a length of at least 1,
  \<open>canPlaceShip\<close> returns true exactly when every covered cell lies inside the grid
  and is empty. With a length-3 ship placed at i 4, columns 2 to 4, a horizontal
  length-3 placement is refused at i 4 column 3 and accepted at i 5 column 2.
\<close>

theorem canPlaceShip_iff_in_bounds_and_empty:
  "(wfBoard board \<and> 0 \<le> i \<and> i < BOARD_SIZE \<and> 0 \<le> j \<and> j < BOARD_SIZE \<and> 1 \<le> len \<longrightarrow>
      canPlaceShip board i j len horizontal =
        Some (\<forall>p \<in> set (shipCells i j len horizontal). inBoundsEmpty board p))
   \<and> (case placeShip createEmptyBoard 4 2 3 True 0 of
         None \<Rightarrow> False
       | Some b \<Rightarrow> canPlaceShip b 4 3 3 True = Some False \<and> canPlaceShip b 5 2 3 True = Some True)"
proof
  show "wfBoard board \<and> 0 \<le> i \<and> i < BOARD_SIZE \<and> 0 \<le> j \<and> j < BOARD_SIZE \<and> 1 \<le> len \<longrightarrow>
      canPlaceShip board i j len horizontal =
        Some (\<forall>p \<in> set (shipCells i j len horizontal). inBoundsEmpty board p)"
    using canPlaceShip_spec[of board i j len horizontal] by (simp add: BOARD_SIZE_def)
  show "case placeShip createEmptyBoard 4 2 3 True 0 of
         None \<Rightarrow> False
       | Some b \<Rightarrow> canPlaceShip b 4 3 3 True = Some False \<and> canPlaceShip b 5 2 3 True = Some True"
    by code_simp
qed

theorem canPlaceShip_iff_in_bounds_and_empty_witness:
  "wfBoard createEmptyBoard \<and> (0::int) < BOARD_SIZE \<and>
   canPlaceShip createEmptyBoard 0 0 2 True = Some True"
proof -
  have wf: "wfBoard createEmptyBoard" by code_simp
  have cells: "\<forall>p \<in> set (shipCells 0 0 2 True). inBoundsEmpty createEmptyBoard p" by code_simp
  have "canPlaceShip createEmptyBoard 0 0 2 True =
          Some (\<forall>p \<in> set (shipCells 0 0 2 True). inBoundsEmpty createEmptyBoard p)"
    using canPlaceShip_iff_in_bounds_and_empty[of createEmptyBoard 0 0 2 True] wf
    by (simp add: BOARD_SIZE_def)
  with wf cells show ?thesis by (simp add: BOARD_SIZE_def)
qed

section \<open>Board model: processShot\<close>

lemma wfBoard_rows:
  "wfBoard board \<Longrightarrow> length board = 10 \<and> (\<forall>r < 10. length (board ! r) = 10)"
  by (auto simp: wfBoard_def BOARD_SIZE_def list_all_iff)

lemma wfBoard_setCell:
  assumes "wfBoard board"
  shows "wfBoard (setCell board r c x)"
proof -
  from assms have len: "length board = 10" and rows: "\<forall>rw \<in> set board. length rw = 10"
    by (auto simp: wfBoard_def BOARD_SIZE_def list_all_iff)
  have "\<forall>rw \<in> set (setCell board r c x). length rw = 10"
  proof
    fix rw assume "rw \<in> set (setCell board r c x)"
    then have "rw \<in> insert ((board ! nat r)[nat c := x]) (set board)"
      unfolding setCell_def using set_update_subset_insert by fastforce
    then show "length rw = 10"
    proof
      assume eq: "rw = (board ! nat r)[nat c := x]"
      show ?thesis
      proof (cases "nat r < length board")
        case True
        then have "board ! nat r \<in> set board" by simp
        with rows eq show ?thesis by simp
      next
        case False
        with \<open>rw \<in> set (setCell board r c x)\<close> have "rw \<in> set board"
          by (simp add: setCell_def list_update_beyond)
        with rows show ?thesis by blast
      qed
    next
      assume "rw \<in> set board"
      with rows show ?thesis by blast
    qed
  qed
  with len show ?thesis by (simp add: wfBoard_def BOARD_SIZE_def list_all_iff setCell_def)
qed

lemma cellAt_setCell:
  assumes "cellAt board r c = Some x"
  shows "cellAt (setCell board r c y) r' c' = (if r' = r \<and> c' = c then Some y else cellAt board r' c')"
proof -
  from assms have r: "0 \<le> r" "nat r < length board" and c: "0 \<le> c" "nat c < length (board ! nat r)"
    by (auto simp: cellAt_def split: if_splits)
  show ?thesis
  proof (cases "r' = r")
    case True
    then show ?thesis using r c
      by (cases "c' = c") (auto simp: cellAt_def setCell_def nth_list_update)
  next
    case False
    then have "0 \<le> r' \<Longrightarrow> nat r' \<noteq> nat r" using r by simp
    then show ?thesis using False r
      by (auto simp: cellAt_def setCell_def nth_list_update)
  qed
qed

lemma markShipAsSunk_wf:
  assumes "wfBoard board"
  shows "markShipAsSunk board sid = Some (map (map (sinkCell sid)) board)"
proof -
  from wfBoard_rows[OF assms] have len: "length board = 10" and rows: "\<forall>r < 10. length (board ! r) = 10"
    by auto
  have "list_all (\<lambda>r. r < length board \<and> nat BOARD_SIZE \<le> length (board ! r)) [0..<nat BOARD_SIZE]"
    using len rows by (simp add: list_all_iff BOARD_SIZE_def)
  moreover have "\<forall>rw \<in> set board. length rw = 10"
    using assms by (auto simp: wfBoard_def BOARD_SIZE_def list_all_iff)
  ultimately show ?thesis
    using len by (simp add: markShipAsSunk_def BOARD_SIZE_def)
qed

lemma cellAt_map_map:
  "cellAt (map (map f) board) r c = map_option f (cellAt board r c)"
  by (auto simp: cellAt_def)

lemma findShipIndex_Some:
  "findShipIndex ships sid = Some k \<Longrightarrow> k < length ships \<and> id' (ships ! k) = sid"
  by (induction ships arbitrary: k) (auto split: if_splits)

lemma findShipIndex_update:
  "findShipIndex ships sid = Some k \<Longrightarrow> id' s = sid \<Longrightarrow> findShipIndex (ships[k := s]) sid = Some k"
  by (induction ships arbitrary: k) (auto split: if_splits)


lemma processShot_miss:
  assumes "cellAt board i j = Some cell" "state cell \<noteq> CShip"
  shows "processShot board ships i j = Some (Miss, setCell board i j (cell\<lparr>state := CMiss\<rparr>), ships)"
  using assms by (simp add: processShot_def)

lemma processShot_hit:
  assumes "cellAt board i j = Some cell" "state cell = CShip"
    "shipId cell = Some sid" "findShipIndex ships sid = Some k"
    "hits' (ships ! k) + 1 \<noteq> length' (ships ! k)"
  shows "processShot board ships i j =
     Some (Hit, setCell board i j (cell\<lparr>state := CHit\<rparr>),
           ships[k := (ships ! k)\<lparr>hits' := hits' (ships ! k) + 1\<rparr>])"
  using assms by (simp add: processShot_def Let_def)

lemma processShot_sunk:
  assumes "wfBoard board" "cellAt board i j = Some cell" "state cell = CShip"
    "shipId cell = Some sid" "findShipIndex ships sid = Some k"
    "hits' (ships ! k) + 1 = length' (ships ! k)"
  shows "processShot board ships i j =
     Some (Sunk, map (map (sinkCell sid)) (setCell board i j (cell\<lparr>state := CHit\<rparr>)),
           ships[k := (ships ! k)\<lparr>hits' := hits' (ships ! k) + 1, sunk := True\<rparr>])"
  using assms markShipAsSunk_wf[OF wfBoard_setCell[OF assms(1)]]
  by (simp add: processShot_def Let_def)

text \<open>
  C4. On a 10 by 10 board, for a target cell in state ship or empty and a roster that
  holds the owning ship: an empty cell becomes miss and the result is miss; a ship cell
  counts one more hit on the owning ship (the first roster entry with the cell's id); when
  the count then equals the ship's length the sunk flag is set, every cell carrying the
  ship's id reads sunk and the result is sunk; otherwise the cell reads hit and the result
  is hit. No other cell changes.
\<close>

theorem processShot_resolves:
  assumes wf: "wfBoard board"
    and cell: "cellAt board i j = Some cell"
    and pre: "state cell = CShip \<or> state cell = CEmpty"
    and roster: "state cell = CShip \<longrightarrow>
                   (\<exists>sid k. shipId cell = Some sid \<and> findShipIndex ships sid = Some k)"
  shows "\<exists>res board1 ships1.
     processShot board ships i j = Some (res, board1, ships1) \<and>
     (state cell = CEmpty \<longrightarrow>
        res = Miss \<and> ships1 = ships \<and>
        cellAt board1 i j = Some (cell\<lparr>state := CMiss\<rparr>) \<and>
        (\<forall>r c. (r, c) \<noteq> (i, j) \<longrightarrow> cellAt board1 r c = cellAt board r c)) \<and>
     (state cell = CShip \<longrightarrow>
        (\<forall>sid k. shipId cell = Some sid \<and> findShipIndex ships sid = Some k \<longrightarrow>
           (if hits' (ships ! k) + 1 = length' (ships ! k)
            then res = Sunk \<and>
                 ships1 = ships[k := (ships ! k)\<lparr>hits' := hits' (ships ! k) + 1, sunk := True\<rparr>] \<and>
                 (\<forall>r c x. cellAt board r c = Some x \<longrightarrow>
                    cellAt board1 r c =
                      Some (if shipId x = Some sid then x\<lparr>state := CSunk\<rparr> else x))
            else res = Hit \<and>
                 ships1 = ships[k := (ships ! k)\<lparr>hits' := hits' (ships ! k) + 1\<rparr>] \<and>
                 cellAt board1 i j = Some (cell\<lparr>state := CHit\<rparr>) \<and>
                 (\<forall>r c. (r, c) \<noteq> (i, j) \<longrightarrow> cellAt board1 r c = cellAt board r c))))"
proof (cases "state cell = CShip")
  case False
  with pre have e: "state cell = CEmpty" by simp
  show ?thesis
    using processShot_miss[OF cell False, of ships] e cellAt_setCell[OF cell]
    by simp
next
  case True
  with roster obtain sid k where sk: "shipId cell = Some sid" "findShipIndex ships sid = Some k"
    by blast
  show ?thesis
  proof (cases "hits' (ships ! k) + 1 = length' (ships ! k)")
    case full: True
    have "\<forall>r c x. cellAt board r c = Some x \<longrightarrow>
            cellAt (map (map (sinkCell sid)) (setCell board i j (cell\<lparr>state := CHit\<rparr>))) r c =
              Some (if shipId x = Some sid then x\<lparr>state := CSunk\<rparr> else x)"
      using cell sk by (auto simp: cellAt_map_map cellAt_setCell[OF cell] sinkCell_def)
    then show ?thesis
      using processShot_sunk[OF wf cell True sk full] True sk full by simp
  next
    case part: False
    show ?thesis
      using processShot_hit[OF cell True sk part] True sk part cellAt_setCell[OF cell]
      by simp
  qed
qed

theorem processShot_resolves_witness:
  "wfBoard scenarioBoard \<and>
   cellAt scenarioBoard 4 2 = Some \<lparr>state = CShip, shipId = Some 2\<rparr> \<and>
   findShipIndex createShips 2 = Some 2 \<and>
   (\<exists>board1 ships1. processShot scenarioBoard createShips 4 2 = Some (Hit, board1, ships1) \<and>
      cellAt board1 4 2 = Some \<lparr>state = CHit, shipId = Some 2\<rparr>)"
proof -
  have wf: "wfBoard scenarioBoard" by code_simp
  have cell: "cellAt scenarioBoard 4 2 = Some \<lparr>state = CShip, shipId = Some 2\<rparr>" by code_simp
  have idx: "findShipIndex createShips 2 = Some 2" by code_simp
  have n: "hits' (createShips ! 2) + 1 \<noteq> length' (createShips ! 2)" by code_simp
  from processShot_resolves[OF wf cell, of createShips] idx n
  show ?thesis using wf cell by auto
qed

lemma findShipIndex_update_same_id:
  "j < length ships \<Longrightarrow> id' s1 = id' (ships ! j) \<Longrightarrow>
   findShipIndex (ships[j := s1]) x = findShipIndex ships x"
proof (induction ships arbitrary: j)
  case Nil
  then show ?case by simp
next
  case (Cons a ships)
  then show ?case by (cases j) auto
qed

lemma wfBoard_map: "wfBoard (map (map f) board) = wfBoard board"
  by (simp add: wfBoard_def list_all_iff)

lemma shipId_sinkCell: "shipId (sinkCell sid y) = shipId y"
  by (simp add: sinkCell_def)

lemma processShot_other:
  assumes wf: "wfBoard board" and k: "findShipIndex ships sid = Some k"
    and cell: "cellAt board r c = Some x" and other: "shipId x \<noteq> Some sid"
  shows "\<exists>res b1 s1. processShot board ships r c = Some (res, b1, s1) \<and> wfBoard b1 \<and>
           findShipIndex s1 sid = Some k \<and> s1 ! k = ships ! k \<and>
           (\<forall>r1 c1. map_option shipId (cellAt b1 r1 c1) = map_option shipId (cellAt board r1 c1)) \<and>
           (\<forall>r1 c1 y. cellAt board r1 c1 = Some y \<and> shipId y = Some sid \<longrightarrow> cellAt b1 r1 c1 = Some y)"
proof -
  from findShipIndex_Some[OF k] have klen: "k < length ships" and kid: "id' (ships ! k) = sid" by auto
  let ?bh = "setCell board r c (x\<lparr>state := CHit\<rparr>)"
  let ?bm = "setCell board r c (x\<lparr>state := CMiss\<rparr>)"
  have set_ids: "\<And>st r1 c1. map_option shipId (cellAt (setCell board r c (x\<lparr>state := st\<rparr>)) r1 c1)
                   = map_option shipId (cellAt board r1 c1)"
    using cell by (auto simp: cellAt_setCell[OF cell])
  have set_keep: "\<And>st r1 c1 y. cellAt board r1 c1 = Some y \<Longrightarrow> shipId y = Some sid \<Longrightarrow>
                   cellAt (setCell board r c (x\<lparr>state := st\<rparr>)) r1 c1 = Some y"
    using cell other by (auto simp: cellAt_setCell[OF cell])
  show ?thesis
  proof (cases "state x = CShip")
    case False
    from processShot_miss[OF cell False, of ships] show ?thesis
      using wfBoard_setCell[OF wf] k set_ids set_keep by simp
  next
    case ship: True
    show ?thesis
    proof (cases "shipId x")
      case None
      then have "processShot board ships r c = Some (Hit, ?bh, ships)"
        using cell ship by (simp add: processShot_def Let_def)
      then show ?thesis
        using wfBoard_setCell[OF wf] k set_ids set_keep by simp
    next
      case (Some sid1)
      with other have ne: "sid1 \<noteq> sid" by simp
      show ?thesis
      proof (cases "findShipIndex ships sid1")
        case None
        then have "processShot board ships r c = Some (Hit, ?bh, ships)"
          using cell ship Some by (simp add: processShot_def Let_def)
        then show ?thesis
          using wfBoard_setCell[OF wf] k set_ids set_keep by simp
      next
        case (Some k1)
        note k1 = this
        from findShipIndex_Some[OF k1] have k1len: "k1 < length ships" and k1id: "id' (ships ! k1) = sid1"
          by auto
        have kk: "k1 \<noteq> k" using kid k1id ne by auto
        let ?n = "hits' (ships ! k1) + 1"
        show ?thesis
        proof (cases "?n = length' (ships ! k1)")
          case False
          from processShot_hit[OF cell ship \<open>shipId x = Some sid1\<close> k1 False]
          have run: "processShot board ships r c =
                Some (Hit, ?bh, ships[k1 := (ships ! k1)\<lparr>hits' := ?n\<rparr>])" .
          have "findShipIndex (ships[k1 := (ships ! k1)\<lparr>hits' := ?n\<rparr>]) sid = Some k"
            using findShipIndex_update_same_id[OF k1len, of "(ships ! k1)\<lparr>hits' := ?n\<rparr>" sid] k by simp
          then show ?thesis
            using run wfBoard_setCell[OF wf] kk set_ids set_keep by simp
        next
          case True
          from processShot_sunk[OF wf cell ship \<open>shipId x = Some sid1\<close> k1 True]
          have run: "processShot board ships r c =
                Some (Sunk, map (map (sinkCell sid1)) ?bh,
                      ships[k1 := (ships ! k1)\<lparr>hits' := ?n, sunk := True\<rparr>])" .
          have f: "findShipIndex (ships[k1 := (ships ! k1)\<lparr>hits' := ?n, sunk := True\<rparr>]) sid = Some k"
            using findShipIndex_update_same_id[OF k1len, of "(ships ! k1)\<lparr>hits' := ?n, sunk := True\<rparr>" sid] k
            by simp
          have ids: "\<And>r1 c1. map_option shipId (cellAt (map (map (sinkCell sid1)) ?bh) r1 c1)
                        = map_option shipId (cellAt board r1 c1)"
            using set_ids[of CHit]
            by (simp add: cellAt_map_map option.map_comp comp_def shipId_sinkCell)
          have keep: "\<And>r1 c1 y. cellAt board r1 c1 = Some y \<Longrightarrow> shipId y = Some sid \<Longrightarrow>
                        cellAt (map (map (sinkCell sid1)) ?bh) r1 c1 = Some y"
            using set_keep[of _ _ _ CHit] ne by (simp add: cellAt_map_map sinkCell_def)
          show ?thesis
            using run wfBoard_setCell[OF wf] f kk ids keep by (simp add: wfBoard_map)
        qed
      qed
    qed
  qed
qed


lemma resultsAt_Cons:
  "resultsAt C (res # rs) (p # ps) = (if p \<in> C then res # resultsAt C rs ps else resultsAt C rs ps)"
  by (simp add: resultsAt_def)

lemma fireAll_interleaved:
  assumes "wfBoard board" "findShipIndex ships sid = Some k"
    and "\<forall>r c x. cellAt board r c = Some x \<longrightarrow> (shipId x = Some sid \<longleftrightarrow> (r, c) \<in> C)"
    and "\<forall>p \<in> set shots. cellAt board (fst p) (snd p) \<noteq> None"
    and "\<forall>p \<in> set shots. p \<in> C \<longrightarrow> (\<exists>x. cellAt board (fst p) (snd p) = Some x \<and> state x = CShip)"
    and "distinct (filter (\<lambda>p. p \<in> C) shots)"
    and "hits' (ships ! k) + int (length (filter (\<lambda>p. p \<in> C) shots)) = length' (ships ! k)"
  shows "\<exists>results b1 s1.
     fireAll board ships shots = Some (results, b1, s1) \<and>
     (if filter (\<lambda>p. p \<in> C) shots = []
      then resultsAt C results shots = [] \<and>
           (\<forall>r c x. cellAt board r c = Some x \<and> shipId x = Some sid \<longrightarrow> cellAt b1 r c = Some x)
      else resultsAt C results shots =
             replicate (length (filter (\<lambda>p. p \<in> C) shots) - 1) Hit @ [Sunk] \<and>
           (\<forall>r c x. cellAt board r c = Some x \<and> shipId x = Some sid \<longrightarrow>
              (\<exists>y. cellAt b1 r c = Some y \<and> state y = CSunk)))"
  using assms
proof (induction shots arbitrary: board ships)
  case Nil
  then show ?case by (simp add: resultsAt_def)
next
  case (Cons p ps)
  obtain r c where p: "p = (r, c)" by (cases p)
  note wf = Cons.prems(1) and k = Cons.prems(2) and exact = Cons.prems(3)
  from Cons.prems(4) obtain x where cell: "cellAt board r c = Some x" by (auto simp: p)
  from findShipIndex_Some[OF k] have klen: "k < length ships" and kid: "id' (ships ! k) = sid" by auto
  let ?fC = "\<lambda>xs. filter (\<lambda>p. p \<in> C) xs"
  show ?case
  proof (cases "p \<in> C")
    case False
    with exact cell have other: "shipId x \<noteq> Some sid" by (auto simp: p)
    from processShot_other[OF wf k cell other]
    obtain res b1 s1 where run: "processShot board ships r c = Some (res, b1, s1)"
      and wf1: "wfBoard b1" and k1: "findShipIndex s1 sid = Some k" and same: "s1 ! k = ships ! k"
      and ids: "\<forall>r1 c1. map_option shipId (cellAt b1 r1 c1) = map_option shipId (cellAt board r1 c1)"
      and keep: "\<forall>r1 c1 y. cellAt board r1 c1 = Some y \<and> shipId y = Some sid \<longrightarrow> cellAt b1 r1 c1 = Some y"
      by blast
    have ex1: "\<forall>r1 c1 y. cellAt b1 r1 c1 = Some y \<longrightarrow> (shipId y = Some sid \<longleftrightarrow> (r1, c1) \<in> C)"
    proof (intro allI impI)
      fix r1 c1 y assume y: "cellAt b1 r1 c1 = Some y"
      with ids have "map_option shipId (cellAt board r1 c1) = Some (shipId y)"
        by (metis option.simps(9))
      then obtain y0 where "cellAt board r1 c1 = Some y0" "shipId y0 = shipId y" by auto
      with exact show "shipId y = Some sid \<longleftrightarrow> (r1, c1) \<in> C" by metis
    qed
    have inb1: "\<forall>q \<in> set ps. cellAt b1 (fst q) (snd q) \<noteq> None"
    proof
      fix q assume "q \<in> set ps"
      with Cons.prems(4) have "cellAt board (fst q) (snd q) \<noteq> None" by simp
      then have "map_option shipId (cellAt board (fst q) (snd q)) \<noteq> None" by simp
      with ids show "cellAt b1 (fst q) (snd q) \<noteq> None" by (metis option.map_disc_iff)
    qed
    have pend1: "\<forall>q \<in> set ps. q \<in> C \<longrightarrow> (\<exists>y. cellAt b1 (fst q) (snd q) = Some y \<and> state y = CShip)"
    proof (intro ballI impI)
      fix q assume q: "q \<in> set ps" "q \<in> C"
      with Cons.prems(5) obtain y where y: "cellAt board (fst q) (snd q) = Some y" "state y = CShip"
        by auto
      with exact q(2) have "shipId y = Some sid" by (cases q) auto
      with keep y show "\<exists>y. cellAt b1 (fst q) (snd q) = Some y \<and> state y = CShip" by blast
    qed
    have d1: "distinct (?fC ps)" using Cons.prems(6) False by simp
    have cnt1: "hits' (s1 ! k) + int (length (?fC ps)) = length' (s1 ! k)"
      using Cons.prems(7) False same by simp
    from Cons.IH[OF wf1 k1 ex1 inb1 pend1 d1 cnt1]
    obtain rs b2 s2 where rest: "fireAll b1 s1 ps = Some (rs, b2, s2)"
      and concl: "if ?fC ps = []
        then resultsAt C rs ps = [] \<and>
             (\<forall>r c x. cellAt b1 r c = Some x \<and> shipId x = Some sid \<longrightarrow> cellAt b2 r c = Some x)
        else resultsAt C rs ps = replicate (length (?fC ps) - 1) Hit @ [Sunk] \<and>
             (\<forall>r c x. cellAt b1 r c = Some x \<and> shipId x = Some sid \<longrightarrow>
                (\<exists>y. cellAt b2 r c = Some y \<and> state y = CSunk))"
      by blast
    have all: "fireAll board ships (p # ps) = Some (res # rs, b2, s2)"
      using run rest by (simp add: p)
    have ra: "resultsAt C (res # rs) (p # ps) = resultsAt C rs ps"
      using False by (simp add: resultsAt_Cons)
    have fc: "?fC (p # ps) = ?fC ps" using False by simp
    show ?thesis
    proof (cases "?fC ps = []")
      case True
      with concl have c1: "resultsAt C rs ps = []"
        and c2: "\<forall>r c x. cellAt b1 r c = Some x \<and> shipId x = Some sid \<longrightarrow> cellAt b2 r c = Some x"
        by simp_all
      from c2 keep have "\<forall>r c x. cellAt board r c = Some x \<and> shipId x = Some sid \<longrightarrow> cellAt b2 r c = Some x"
        by blast
      with c1 have "resultsAt C rs ps = [] \<and>
          (\<forall>r c x. cellAt board r c = Some x \<and> shipId x = Some sid \<longrightarrow> cellAt b2 r c = Some x)"
        by simp
      with all ra fc True show ?thesis by simp
    next
      case ne: False
      with concl have c1: "resultsAt C rs ps = replicate (length (?fC ps) - 1) Hit @ [Sunk]"
        and c2: "\<forall>r c x. cellAt b1 r c = Some x \<and> shipId x = Some sid \<longrightarrow>
                (\<exists>y. cellAt b2 r c = Some y \<and> state y = CSunk)"
        by simp_all
      from c2 keep have "\<forall>r c x. cellAt board r c = Some x \<and> shipId x = Some sid \<longrightarrow>
                (\<exists>y. cellAt b2 r c = Some y \<and> state y = CSunk)"
        by blast
      with c1 have "resultsAt C rs ps = replicate (length (?fC ps) - 1) Hit @ [Sunk] \<and>
          (\<forall>r c x. cellAt board r c = Some x \<and> shipId x = Some sid \<longrightarrow>
                (\<exists>y. cellAt b2 r c = Some y \<and> state y = CSunk))"
        by simp
      with all ra fc ne show ?thesis by simp
    qed
  next
    case True
    with Cons.prems(5) cell have ship: "state x = CShip" by (auto simp: p)
    from exact cell True have xid: "shipId x = Some sid" by (auto simp: p)
    have fc: "?fC (p # ps) = p # ?fC ps" using True by simp
    have pnot: "p \<notin> set (?fC ps)" and d1: "distinct (?fC ps)"
      using Cons.prems(6) fc by simp_all
    let ?bh = "setCell board r c (x\<lparr>state := CHit\<rparr>)"
    have ids: "\<And>r1 c1 y. cellAt ?bh r1 c1 = Some y \<Longrightarrow> (shipId y = Some sid \<longleftrightarrow> (r1, c1) \<in> C)"
      using exact cell xid True by (auto simp: cellAt_setCell[OF cell] p split: if_splits)
    have keep_id: "\<And>r1 c1 y. cellAt board r1 c1 = Some y \<Longrightarrow> shipId y = Some sid \<Longrightarrow>
                     \<exists>y1. cellAt ?bh r1 c1 = Some y1 \<and> shipId y1 = Some sid"
    proof -
      fix r1 c1 y assume "cellAt board r1 c1 = Some y" "shipId y = Some sid"
      then show "\<exists>y1. cellAt ?bh r1 c1 = Some y1 \<and> shipId y1 = Some sid"
        by (cases "r1 = r \<and> c1 = c") (simp_all add: cellAt_setCell[OF cell] xid)
    qed
    show ?thesis
    proof (cases "?fC ps = []")
      case last: True
      with Cons.prems(7) fc have full: "hits' (ships ! k) + 1 = length' (ships ! k)" by simp
      let ?b1 = "map (map (sinkCell sid)) ?bh"
      let ?s1 = "ships[k := (ships ! k)\<lparr>hits' := hits' (ships ! k) + 1, sunk := True\<rparr>]"
      from processShot_sunk[OF wf cell ship xid k full]
      have run: "processShot board ships r c = Some (Sunk, ?b1, ?s1)" .
      have wf1: "wfBoard ?b1" using wfBoard_setCell[OF wf] by (simp add: wfBoard_map)
      have k1: "findShipIndex ?s1 sid = Some k"
        by (rule findShipIndex_update[OF k]) (simp add: kid)
      have ex1: "\<forall>r1 c1 y. cellAt ?b1 r1 c1 = Some y \<longrightarrow> (shipId y = Some sid \<longleftrightarrow> (r1, c1) \<in> C)"
        using ids by (auto simp: cellAt_map_map shipId_sinkCell)
      have inb1: "\<forall>q \<in> set ps. cellAt ?b1 (fst q) (snd q) \<noteq> None"
        using Cons.prems(4) by (auto simp: cellAt_map_map cellAt_setCell[OF cell])
      have pend1: "\<forall>q \<in> set ps. q \<in> C \<longrightarrow> (\<exists>y. cellAt ?b1 (fst q) (snd q) = Some y \<and> state y = CShip)"
        using last by (auto simp: filter_empty_conv)
      have cnt1: "hits' (?s1 ! k) + int (length (?fC ps)) = length' (?s1 ! k)"
        using full last klen by simp
      from Cons.IH[OF wf1 k1 ex1 inb1 pend1 d1 cnt1] last
      obtain rs b2 s2 where rest: "fireAll ?b1 ?s1 ps = Some (rs, b2, s2)"
        and r0: "resultsAt C rs ps = []"
        and keep: "\<forall>r c x. cellAt ?b1 r c = Some x \<and> shipId x = Some sid \<longrightarrow> cellAt b2 r c = Some x"
        by auto
      have all: "fireAll board ships (p # ps) = Some (Sunk # rs, b2, s2)"
        using run rest by (simp add: p)
      have ra: "resultsAt C (Sunk # rs) (p # ps) = replicate (length (?fC (p # ps)) - 1) Hit @ [Sunk]"
        using True r0 last fc by (simp add: resultsAt_Cons)
      have sunk: "\<forall>r1 c1 y. cellAt board r1 c1 = Some y \<and> shipId y = Some sid \<longrightarrow>
                    (\<exists>z. cellAt b2 r1 c1 = Some z \<and> state z = CSunk)"
      proof (intro allI impI)
        fix r1 c1 y assume y: "cellAt board r1 c1 = Some y \<and> shipId y = Some sid"
        then obtain y1 where y1: "cellAt ?bh r1 c1 = Some y1" "shipId y1 = Some sid"
          using keep_id by blast
        then have "cellAt ?b1 r1 c1 = Some (y1\<lparr>state := CSunk\<rparr>)"
          by (simp add: cellAt_map_map sinkCell_def)
        with keep y1 have "cellAt b2 r1 c1 = Some (y1\<lparr>state := CSunk\<rparr>)" by simp
        then show "\<exists>z. cellAt b2 r1 c1 = Some z \<and> state z = CSunk" by simp
      qed
      show ?thesis using all ra sunk fc by simp
    next
      case more: False
      then have len: "length (?fC ps) \<ge> 1" by (cases "?fC ps") auto
      with Cons.prems(7) fc have part: "hits' (ships ! k) + 1 \<noteq> length' (ships ! k)" by simp
      let ?s1 = "ships[k := (ships ! k)\<lparr>hits' := hits' (ships ! k) + 1\<rparr>]"
      from processShot_hit[OF cell ship xid k part]
      have run: "processShot board ships r c = Some (Hit, ?bh, ?s1)" .
      have wf1: "wfBoard ?bh" by (rule wfBoard_setCell[OF wf])
      have k1: "findShipIndex ?s1 sid = Some k"
        by (rule findShipIndex_update[OF k]) (simp add: kid)
      have ex1: "\<forall>r1 c1 y. cellAt ?bh r1 c1 = Some y \<longrightarrow> (shipId y = Some sid \<longleftrightarrow> (r1, c1) \<in> C)"
        using ids by blast
      have inb1: "\<forall>q \<in> set ps. cellAt ?bh (fst q) (snd q) \<noteq> None"
        using Cons.prems(4) by (auto simp: cellAt_setCell[OF cell])
      have pend1: "\<forall>q \<in> set ps. q \<in> C \<longrightarrow> (\<exists>y. cellAt ?bh (fst q) (snd q) = Some y \<and> state y = CShip)"
      proof (intro ballI impI)
        fix q assume q: "q \<in> set ps" "q \<in> C"
        with pnot have "q \<noteq> p" by auto
        then have "cellAt ?bh (fst q) (snd q) = cellAt board (fst q) (snd q)"
          by (cases q) (auto simp: cellAt_setCell[OF cell] p)
        with Cons.prems(5) q show "\<exists>y. cellAt ?bh (fst q) (snd q) = Some y \<and> state y = CShip"
          by simp
      qed
      have cnt1: "hits' (?s1 ! k) + int (length (?fC ps)) = length' (?s1 ! k)"
        using Cons.prems(7) fc klen by simp
      from Cons.IH[OF wf1 k1 ex1 inb1 pend1 d1 cnt1] more
      obtain rs b2 s2 where rest: "fireAll ?bh ?s1 ps = Some (rs, b2, s2)"
        and r0: "resultsAt C rs ps = replicate (length (?fC ps) - 1) Hit @ [Sunk]"
        and fin: "\<forall>r c x. cellAt ?bh r c = Some x \<and> shipId x = Some sid \<longrightarrow>
                    (\<exists>y. cellAt b2 r c = Some y \<and> state y = CSunk)"
        by auto
      have all: "fireAll board ships (p # ps) = Some (Hit # rs, b2, s2)"
        using run rest by (simp add: p)
      have "Hit # replicate (length (?fC ps) - 1) Hit @ [Sunk] = replicate (length (?fC ps)) Hit @ [Sunk]"
        using len by (cases "length (?fC ps)") auto
      then have ra: "resultsAt C (Hit # rs) (p # ps) = replicate (length (?fC (p # ps)) - 1) Hit @ [Sunk]"
        using True r0 fc by (simp add: resultsAt_Cons)
      have sunk: "\<forall>r1 c1 y. cellAt board r1 c1 = Some y \<and> shipId y = Some sid \<longrightarrow>
                    (\<exists>z. cellAt b2 r1 c1 = Some z \<and> state z = CSunk)"
      proof (intro allI impI)
        fix r1 c1 y assume y: "cellAt board r1 c1 = Some y \<and> shipId y = Some sid"
        then obtain y1 where "cellAt ?bh r1 c1 = Some y1" "shipId y1 = Some sid"
          using keep_id by blast
        with fin show "\<exists>z. cellAt b2 r1 c1 = Some z \<and> state z = CSunk" by blast
      qed
      show ?thesis using all ra sunk fc by simp
    qed
  qed
qed


lemma fireAll_length: "fireAll board ships shots = Some (results, b1, s1) \<Longrightarrow> length results = length shots"
proof (induction shots arbitrary: board ships results)
  case Nil
  then show ?case by simp
next
  case (Cons p ps)
  obtain r c where p: "p = (r, c)" by (cases p)
  from Cons.prems obtain res b s rs where
    "fireAll b s ps = Some (rs, b1, s1)" "results = res # rs"
    by (auto simp: p split: option.splits)
  with Cons.IH show ?case by auto
qed

lemma resultsAt_all:
  "length results = length shots \<Longrightarrow> set shots \<subseteq> C \<Longrightarrow> resultsAt C results shots = results"
proof (induction shots arbitrary: results)
  case Nil
  then show ?case by (simp add: resultsAt_def)
next
  case (Cons p ps)
  then obtain res rs where "results = res # rs" by (cases results) auto
  with Cons show ?case by (simp add: resultsAt_Cons)
qed

text \<open>
  C5. A ship with no hits occupies exactly the cell set \<open>C\<close>. In a run of shots that
  fires every cell of \<open>C\<close> once, in any order (shots at other cells of the grid may come
  in between), the shots at \<open>C\<close> return hit, except the last, which returns sunk; when
  the run holds no other shot its results are exactly these. Afterwards every cell of
  \<open>C\<close> reads sunk.
\<close>

theorem firing_all_cells_sinks_on_last:
  assumes "wfBoard board" "findShipIndex ships sid = Some k"
    and "hits' (ships ! k) = 0" "length' (ships ! k) = int (card C)" "C \<noteq> {}"
    and "\<forall>r c x. cellAt board r c = Some x \<longrightarrow> (shipId x = Some sid \<longleftrightarrow> (r, c) \<in> C)"
    and "\<forall>p \<in> C. \<exists>x. cellAt board (fst p) (snd p) = Some x \<and> state x = CShip"
    and "\<forall>p \<in> set shots. cellAt board (fst p) (snd p) \<noteq> None"
    and "distinct (filter (\<lambda>p. p \<in> C) shots)" "C \<subseteq> set shots"
  shows "\<exists>results board1 ships1.
     fireAll board ships shots = Some (results, board1, ships1) \<and>
     resultsAt C results shots = replicate (card C - 1) Hit @ [Sunk] \<and>
     (set shots = C \<longrightarrow> results = replicate (card C - 1) Hit @ [Sunk]) \<and>
     (\<forall>p \<in> C. \<exists>y. cellAt board1 (fst p) (snd p) = Some y \<and> state y = CSunk)"
proof -
  let ?f = "filter (\<lambda>p. p \<in> C) shots"
  have setf: "set ?f = C" using assms(10) by auto
  with assms(9) have card: "card C = length ?f" using distinct_card by fastforce
  have ne: "?f \<noteq> []" using setf assms(5) by (metis set_empty2)
  have pend: "\<forall>p \<in> set shots. p \<in> C \<longrightarrow> (\<exists>x. cellAt board (fst p) (snd p) = Some x \<and> state x = CShip)"
    using assms(7) by blast
  have cnt: "hits' (ships ! k) + int (length ?f) = length' (ships ! k)"
    using assms(3,4) card by simp
  from fireAll_interleaved[OF assms(1,2,6,8) pend assms(9) cnt] ne
  obtain results b1 s1 where run: "fireAll board ships shots = Some (results, b1, s1)"
    and ra: "resultsAt C results shots = replicate (length ?f - 1) Hit @ [Sunk]"
    and fin: "\<forall>r c x. cellAt board r c = Some x \<and> shipId x = Some sid \<longrightarrow>
                (\<exists>y. cellAt b1 r c = Some y \<and> state y = CSunk)"
    by auto
  have sunk: "\<forall>p \<in> C. \<exists>y. cellAt b1 (fst p) (snd p) = Some y \<and> state y = CSunk"
  proof
    fix p assume p: "p \<in> C"
    with assms(7) obtain x where x: "cellAt board (fst p) (snd p) = Some x" by blast
    with assms(6) p have "shipId x = Some sid" by (cases p) auto
    with fin x show "\<exists>y. cellAt b1 (fst p) (snd p) = Some y \<and> state y = CSunk" by blast
  qed
  have perm: "set shots = C \<longrightarrow> results = replicate (card C - 1) Hit @ [Sunk]"
  proof
    assume "set shots = C"
    then have "resultsAt C results shots = results"
      using resultsAt_all[OF fireAll_length[OF run], of C] by simp
    with ra card show "results = replicate (card C - 1) Hit @ [Sunk]" by simp
  qed
  from run ra card sunk perm show ?thesis by simp
qed

lemma scenarioBoard_ship:
  "\<forall>r c x. cellAt scenarioBoard r c = Some x \<longrightarrow>
     (shipId x = Some 2 \<longleftrightarrow> (r, c) \<in> {(4, 2), (4, 3), (4, 4)})"
proof (intro allI impI)
  fix r c x assume x: "cellAt scenarioBoard r c = Some x"
  have wf: "wfBoard scenarioBoard" by code_simp
  from x wfBoard_rows[OF wf] have "0 \<le> r \<and> r < 10" and "0 \<le> c \<and> c < 10"
    by (auto simp: cellAt_def split: if_splits)
  then have rc: "r \<in> set [0..9]" "c \<in> set [0..9]" by simp_all
  have "\<forall>r \<in> set [0..9]. \<forall>c \<in> set [0..9].
          (case cellAt scenarioBoard r c of
             None \<Rightarrow> True
           | Some x \<Rightarrow> (shipId x = Some 2) = ((r, c) \<in> {(4, 2), (4, 3), (4, 4)}))"
    by code_simp
  with rc x show "shipId x = Some 2 \<longleftrightarrow> (r, c) \<in> {(4, 2), (4, 3), (4, 4)}"
    by fastforce
qed

theorem firing_all_cells_sinks_on_last_witness:
  "wfBoard scenarioBoard \<and> findShipIndex createShips 2 = Some 2 \<and>
   hits' (createShips ! 2) = 0 \<and> length' (createShips ! 2) = 3 \<and>
   (\<exists>results board1 ships1.
      fireAll scenarioBoard createShips [(4, 3), (0, 0), (4, 4), (4, 2), (9, 9)] =
        Some (results, board1, ships1) \<and>
      resultsAt {(4, 2), (4, 3), (4, 4)} results [(4, 3), (0, 0), (4, 4), (4, 2), (9, 9)] =
        [Hit, Hit, Sunk] \<and>
      (\<forall>p \<in> {(4, 2), (4, 3), (4, 4)}. \<exists>y. cellAt board1 (fst p) (snd p) = Some y \<and> state y = CSunk))"
proof -
  let ?C = "{(4, 2), (4, 3), (4, 4)} :: (int \<times> int) set"
  let ?shots = "[(4, 3), (0, 0), (4, 4), (4, 2), (9, 9)] :: (int \<times> int) list"
  have wf: "wfBoard scenarioBoard" by code_simp
  have idx: "findShipIndex createShips 2 = Some 2" by code_simp
  have h0: "hits' (createShips ! 2) = 0" by code_simp
  have len3: "length' (createShips ! 2) = 3" by code_simp
  have len: "length' (createShips ! 2) = int (card ?C)" using len3 by simp
  have ne: "?C \<noteq> {}" by simp
  have c1: "cellAt scenarioBoard 4 2 = Some \<lparr>state = CShip, shipId = Some 2\<rparr>" by code_simp
  have c2: "cellAt scenarioBoard 4 3 = Some \<lparr>state = CShip, shipId = Some 2\<rparr>" by code_simp
  have c3: "cellAt scenarioBoard 4 4 = Some \<lparr>state = CShip, shipId = Some 2\<rparr>" by code_simp
  have cells: "\<forall>p \<in> ?C. \<exists>x. cellAt scenarioBoard (fst p) (snd p) = Some x \<and> state x = CShip"
    using c1 c2 c3 by simp
  have inb: "\<forall>p \<in> set ?shots. cellAt scenarioBoard (fst p) (snd p) \<noteq> None"
    by code_simp
  have d: "distinct (filter (\<lambda>p. p \<in> ?C) ?shots)" by simp
  have s: "?C \<subseteq> set ?shots" by simp
  from firing_all_cells_sinks_on_last[OF wf idx h0 len ne scenarioBoard_ship cells inb d s]
  obtain results board1 ships1 where
    r: "fireAll scenarioBoard createShips ?shots = Some (results, board1, ships1)"
    and ra: "resultsAt ?C results ?shots = replicate (card ?C - 1) Hit @ [Sunk]"
    and sk: "\<forall>p \<in> ?C. \<exists>y. cellAt board1 (fst p) (snd p) = Some y \<and> state y = CSunk"
    by meson
  have ra3: "resultsAt ?C results ?shots = [Hit, Hit, Sunk]"
    using ra by (simp add: numeral_2_eq_2)
  have "\<exists>results board1 ships1.
      fireAll scenarioBoard createShips ?shots = Some (results, board1, ships1) \<and>
      resultsAt ?C results ?shots = [Hit, Hit, Sunk] \<and>
      (\<forall>p \<in> ?C. \<exists>y. cellAt board1 (fst p) (snd p) = Some y \<and> state y = CSunk)"
  proof (intro exI conjI)
    show "fireAll scenarioBoard createShips ?shots = Some (results, board1, ships1)" by (rule r)
    show "resultsAt ?C results ?shots = [Hit, Hit, Sunk]" by (rule ra3)
    show "\<forall>p \<in> ?C. \<exists>y. cellAt board1 (fst p) (snd p) = Some y \<and> state y = CSunk" by (rule sk)
  qed
  with wf idx h0 len3 show ?thesis by (intro conjI)
qed

section \<open>Random placement gives up silently\<close>

text \<open>
  C3. On a board with no empty cell, \<open>placeShipsRandomly\<close> makes 100 attempts (300
  draws) for the one ship, fewer than 1000, and then returns normally with the board
  unchanged: its result carries no failure.
\<close>

theorem placeShipsRandomly_gives_up_after_100_attempts:
  "map_option (\<lambda>(b, g). (b, snd g)) (placeShipsRandomly fullBoard oneShip (\<lambda>_. 0, 0)) =
     Some (fullBoard, 300)"
  by code_simp

section \<open>Engine: reset and the scenarios\<close>

text \<open>
  C9. \<open>reset\<close> puts the engine into the state of a freshly constructed one, whatever
  state it was in: no shot fired, no miss, no open hit, an empty queue, mode hunt and the
  full fleet \<open>[5,4,3,3,2]\<close>. Resetting twice is resetting once.
\<close>

theorem reset_is_fresh_and_idempotent:
  "reset s = newBattleshipAI \<and>
   shotsFired (reset s) = {} \<and> misses (reset s) = {} \<and> hits (reset s) = [] \<and>
   targetQueue (reset s) = [] \<and> mode (reset s) = Hunt \<and>
   remainingShipSizes (reset s) = [5, 4, 3, 3, 2] \<and>
   reset (reset s) = reset s"
  by (simp add: reset_def newBattleshipAI_def)

text \<open>
  C7. After hits at (3,3) and (3,4) on a fresh engine the queue holds the two horizontal
  end-extensions (3,5) and (3,2) and nothing else; neither report throws.
\<close>

theorem second_hit_queue_is_the_two_row_extensions:
  "targetQueue scenarioC = [Coord 3 5, Coord 3 2] \<and>
   set (targetQueue scenarioC) = {Coord 3 5, Coord 3 2} \<and>
   snd (reportResult newBattleshipAI (Coord 3 3) Hit None) = None \<and>
   snd (reportResult (fst (reportResult newBattleshipAI (Coord 3 3) Hit None))
          (Coord 3 4) Hit None) = None"
proof -
  have q: "targetQueue scenarioC = [Coord 3 5, Coord 3 2]"
    unfolding scenarioC_def by code_simp
  have e1: "snd (reportResult newBattleshipAI (Coord 3 3) Hit None) = None"
    by code_simp
  have e2: "snd (reportResult (fst (reportResult newBattleshipAI (Coord 3 3) Hit None))
          (Coord 3 4) Hit None) = None"
    by code_simp
  from q e1 e2 show ?thesis by simp
qed

text \<open>
  C2. In Scenario D the engine tracks the two open hits (3,3) and (3,4); the shot at
  (3,5) is reported as sunk and never enters the open hits. The sunk branch takes the
  ship's size from the number of tracked hits it removes, which is 2: the fleet loses its
  2 and keeps both 3s. The open hits do become empty and the mode hunt.
\<close>

theorem sunk_report_removes_length_two_not_three:
  "remainingShipSizes scenarioD = [5, 4, 3, 3] \<and>
   remainingShipSizes scenarioD \<noteq> [5, 4, 3, 2] \<and>
   hits scenarioD = [] \<and> mode scenarioD = Hunt"
proof -
  have "remainingShipSizes scenarioD = [5, 4, 3, 3]"
    unfolding scenarioD_def scenarioC_def by code_simp
  moreover have "hits scenarioD = []"
    unfolding scenarioD_def scenarioC_def by code_simp
  moreover have "mode scenarioD = Hunt"
    unfolding scenarioD_def scenarioC_def by code_simp
  ultimately show ?thesis by simp
qed

section \<open>Engine: what getNextShot may change\<close>

lemma rebuildTargetQueue_frame:
  "shotsFired (rebuildTargetQueue s) = shotsFired s \<and> misses (rebuildTargetQueue s) = misses s \<and>
   remainingShipSizes (rebuildTargetQueue s) = remainingShipSizes s \<and>
   hits (rebuildTargetQueue s) = hits s \<and> mode (rebuildTargetQueue s) = mode s \<and>
   lastHit (rebuildTargetQueue s) = lastHit s \<and> firstHit (rebuildTargetQueue s) = firstHit s \<and>
   lastProbeDirection (rebuildTargetQueue s) = lastProbeDirection s"
  by (simp add: rebuildTargetQueue_def Let_def)

lemma Math_random_fst: "Math_random g = (u, g1) \<Longrightarrow> fst g1 = fst g \<and> u = fst g (snd g)"
  by (auto simp: Math_random_def)

lemma unitDraws_fst: "unitDraws g \<Longrightarrow> fst g1 = fst g \<Longrightarrow> unitDraws g1"
  by (simp add: unitDraws_def)

lemma shuffleFrom_fst: "shuffleFrom i xs g = (ys, g1) \<Longrightarrow> fst g1 = fst g"
proof (induction i arbitrary: xs g)
  case 0
  then show ?case by simp
next
  case (Suc i)
  then show ?case by (auto simp: Math_random_def split: prod.splits)
qed

lemma shuffleFrom_length: "shuffleFrom i xs g = (ys, g1) \<Longrightarrow> length ys = length xs"
proof (induction i arbitrary: xs g)
  case 0
  then show ?case by simp
next
  case (Suc i)
  then show ?case by (auto simp: Math_random_def swap_def split: prod.splits)
qed

lemma keepValidHits_fst: "keepValidHits s hs g = (kept, g1) \<Longrightarrow> fst g1 = fst g"
proof (induction hs arbitrary: g kept g1)
  case Nil
  then show ?case by simp
next
  case (Cons h hs)
  obtain ns ga where n: "getOrthogonalNeighbors s (row h) (col h) g = (ns, ga)"
    by (cases "getOrthogonalNeighbors s (row h) (col h) g")
  obtain k gb where k: "keepValidHits s hs ga = (k, gb)" by (cases "keepValidHits s hs ga")
  from n have "fst ga = fst g"
    by (auto simp: getOrthogonalNeighbors_def Let_def dest: shuffleFrom_fst)
  moreover from Cons.IH[OF k] have "fst gb = fst ga" .
  moreover from Cons.prems n k have "g1 = gb" by simp
  ultimately show ?case by simp
qed

lemma weightedDraw_total:
  assumes "unitDraws g" "cs \<noteq> []"
  shows "weightedDraw cs g \<noteq> None"
proof -
  obtain u g1 where r1: "Math_random g = (u, g1)" by (cases "Math_random g")
  obtain u2 g2 where r2: "Math_random g1 = (u2, g2)" by (cases "Math_random g1")
  from Math_random_fst[OF r1] Math_random_fst[OF r2] assms
  have u2: "0 \<le> u2" "u2 < 1" by (auto simp: unitDraws_def)
  have len: "0 < length cs" using assms(2) by simp
  have "0 \<le> u2 * of_nat (length cs)" using u2 by simp
  then have lo: "0 \<le> \<lfloor>u2 * of_nat (length cs)\<rfloor>" by simp
  have "u2 * of_nat (length cs) < of_nat (length cs)" using u2 len by simp
  then have hi: "\<lfloor>u2 * of_nat (length cs)\<rfloor> < int (length cs)"
    by (simp add: floor_less_iff)
  show ?thesis
    using r1 r2 lo hi by (simp add: weightedDraw_def Let_def split: option.splits)
qed

lemma getSmartHuntShot_total:
  assumes "unitDraws g"
  shows "getSmartHuntShot s g \<noteq> None"
  using weightedDraw_total[OF assms, of "huntCandidates s"]
  by (auto simp: getSmartHuntShot_def Let_def split: list.splits)

lemma ensureQueue_frame:
  "shotsFired (ensureQueue s) = shotsFired s \<and> misses (ensureQueue s) = misses s \<and>
   remainingShipSizes (ensureQueue s) = remainingShipSizes s \<and>
   hits (ensureQueue s) = hits s \<and>
   lastHit (ensureQueue s) = lastHit s \<and> firstHit (ensureQueue s) = firstHit s \<and>
   lastProbeDirection (ensureQueue s) = lastProbeDirection s"
  by (simp add: ensureQueue_def Let_def rebuildTargetQueue_frame)

lemma strandedShot_frame:
  assumes "strandedShot s g = Some (shot, s1, g1)"
  shows "shotsFired s1 = shotsFired s \<and> misses s1 = misses s \<and>
         remainingShipSizes s1 = remainingShipSizes s \<and> lastHit s1 = lastHit s \<and>
         firstHit s1 = firstHit s \<and> lastProbeDirection s1 = lastProbeDirection s \<and>
         targetQueue s1 = targetQueue s"
  using assms
  by (auto simp: strandedShot_def Let_def split: prod.splits if_splits option.splits)

lemma getNextShot_frame_aux:
  assumes "getNextShot s g = Some (shot, s1, g1)"
  shows "shotsFired s1 = shotsFired s \<and> misses s1 = misses s \<and>
         remainingShipSizes s1 = remainingShipSizes s \<and> lastHit s1 = lastHit s \<and>
         firstHit s1 = firstHit s \<and> lastProbeDirection s1 = lastProbeDirection s"
proof (cases "length (hits s) > 0")
  case False
  with assms show ?thesis
    by (auto simp: getNextShot_def Let_def split: option.splits)
next
  case True
  show ?thesis
  proof (cases "targetQueue (ensureQueue s)")
    case Nil
    with assms True have "strandedShot (ensureQueue s) g = Some (shot, s1, g1)"
      by (simp add: getNextShot_def Let_def)
    from strandedShot_frame[OF this] show ?thesis by (simp add: ensureQueue_frame)
  next
    case (Cons x xs)
    with assms True have "s1 = (ensureQueue s)\<lparr>targetQueue := xs\<rparr>"
      by (simp add: getNextShot_def Let_def)
    then show ?thesis by (simp add: ensureQueue_frame)
  qed
qed

lemma strandedShot_unfold:
  assumes "keepValidHits s (hits s) g = (vh, g1)"
    and "s3 = (if length vh < length (hits s) then s\<lparr>hits := vh\<rparr> else s)"
  shows "strandedShot s g =
     (if hits s3 = []
      then map_option (\<lambda>(shot, g2). (shot, s3\<lparr>mode := Hunt\<rparr>, g2)) (getSmartHuntShot (s3\<lparr>mode := Hunt\<rparr>) g1)
      else map_option (\<lambda>(shot, g2). (shot, s3, g2)) (getSmartHuntShot s3 g1))"
  using assms by (auto simp: strandedShot_def Let_def split: option.splits)

lemma strandedShot_total:
  assumes "unitDraws g"
  shows "strandedShot s g \<noteq> None"
proof -
  obtain vh g1 where k: "keepValidHits s (hits s) g = (vh, g1)"
    by (cases "keepValidHits s (hits s) g")
  from keepValidHits_fst[OF k] have u: "unitDraws g1" using unitDraws_fst[OF assms] by simp
  define s3 where "s3 = (if length vh < length (hits s) then s\<lparr>hits := vh\<rparr> else s)"
  show ?thesis
    using getSmartHuntShot_total[OF u, of "s3\<lparr>mode := Hunt\<rparr>"] getSmartHuntShot_total[OF u, of s3]
    unfolding strandedShot_unfold[OF k s3_def] by simp
qed

lemma getNextShot_total:
  assumes "unitDraws g"
  shows "getNextShot s g \<noteq> None"
proof (cases "length (hits s) > 0")
  case False
  obtain a ga where "getSmartHuntShot (s\<lparr>mode := Hunt\<rparr>) g = Some (a, ga)"
    using getSmartHuntShot_total[OF assms, of "s\<lparr>mode := Hunt\<rparr>"] by auto
  with False show ?thesis by (simp add: getNextShot_def Let_def)
next
  case True
  then show ?thesis
    using strandedShot_total[OF assms, of "ensureQueue s"]
    by (cases "targetQueue (ensureQueue s)") (simp_all add: getNextShot_def Let_def)
qed

text \<open>
  C10. Whenever \<open>getNextShot\<close> returns, the fired set, the miss set and the remaining
  fleet lengths are those of the state it was called in (and so are the last-hit and
  probe fields): it writes only the mode, the queue and the open hits. With draws in
  \<open>[0, 1)\<close> it always returns.
\<close>

theorem getNextShot_keeps_history:
  "(\<forall>shot s1 g1. getNextShot s g = Some (shot, s1, g1) \<longrightarrow>
      shotsFired s1 = shotsFired s \<and> misses s1 = misses s \<and>
      remainingShipSizes s1 = remainingShipSizes s \<and> lastHit s1 = lastHit s \<and>
      firstHit s1 = firstHit s \<and> lastProbeDirection s1 = lastProbeDirection s) \<and>
   (unitDraws g \<longrightarrow> getNextShot s g \<noteq> None)"
  using getNextShot_frame_aux[of s g] getNextShot_total[of g s] by blast

theorem getNextShot_keeps_history_witness:
  "unitDraws (\<lambda>_. 0, 0) \<and>
   (\<exists>s1 g1. getNextShot scenarioC (\<lambda>_. 0, 0) = Some (Coord 3 5, s1, g1) \<and>
      shotsFired s1 = {Coord 3 3, Coord 3 4} \<and> misses s1 = {} \<and>
      remainingShipSizes s1 = [5, 4, 3, 3, 2])"
proof -
  have u: "unitDraws (\<lambda>_. 0, 0)" by (simp add: unitDraws_def)
  note inst = getNextShot_keeps_history[of scenarioC "(\<lambda>_. 0, 0)"]
  from inst u obtain shot s1 g1 where
    r: "getNextShot scenarioC (\<lambda>_. 0, 0) = Some (shot, s1, g1)" by auto
  have "map_option fst (getNextShot scenarioC (\<lambda>_. 0, 0)) = Some (Coord 3 5)"
    unfolding scenarioC_def by code_simp
  with r have shot: "shot = Coord 3 5" by simp
  have f: "shotsFired scenarioC = {Coord 3 3, Coord 3 4}"
    unfolding scenarioC_def by code_simp
  have m: "misses scenarioC = {}"
    unfolding scenarioC_def by code_simp
  have l: "remainingShipSizes scenarioC = [5, 4, 3, 3, 2]"
    unfolding scenarioC_def by code_simp
  from inst r have "shotsFired s1 = shotsFired scenarioC \<and> misses s1 = misses scenarioC \<and>
      remainingShipSizes s1 = remainingShipSizes scenarioC" by blast
  with r shot f m l u show ?thesis by simp
qed

section \<open>Engine: the hunt shot\<close>

lemma weightedPick_mem: "weightedPick r xs = Some p \<Longrightarrow> p \<in> fst ` set xs"
proof (induction xs arbitrary: r)
  case Nil
  then show ?case by simp
next
  case (Cons x xs)
  obtain c n where x: "x = (c, n)" by (cases x)
  show ?case
  proof (cases "r - of_nat n \<le> 0")
    case True
    with Cons.prems show ?thesis by (simp add: x)
  next
    case False
    with Cons.prems have "weightedPick (r - of_nat n) xs = Some p" by (simp add: x)
    from Cons.IH[OF this] show ?thesis by simp
  qed
qed

lemma weightedDraw_mem:
  assumes "weightedDraw cs g = Some (p, g1)"
  shows "p \<in> fst ` set cs"
proof -
  obtain u ga where r1: "Math_random g = (u, ga)" by (cases "Math_random g")
  obtain u2 gb where r2: "Math_random ga = (u2, gb)" by (cases "Math_random ga")
  show ?thesis
  proof (cases "weightedPick (u * of_nat (sum_list (map snd cs))) cs")
    case (Some q)
    with assms r1 have "q = p" by (simp add: weightedDraw_def Let_def)
    with Some weightedPick_mem show ?thesis by blast
  next
    case None
    with assms r1 r2 have
      "0 \<le> \<lfloor>u2 * of_nat (length cs)\<rfloor> \<and> \<lfloor>u2 * of_nat (length cs)\<rfloor> < int (length cs) \<and>
       p = fst (cs ! nat \<lfloor>u2 * of_nat (length cs)\<rfloor>)"
      by (auto simp: weightedDraw_def Let_def split: if_splits)
    then have "nat \<lfloor>u2 * of_nat (length cs)\<rfloor> < length cs"
      and "p = fst (cs ! nat \<lfloor>u2 * of_nat (length cs)\<rfloor>)"
      by (simp_all only: nat_less_iff)
    then show ?thesis using nth_mem by blast
  qed
qed

lemma weightedDraw_fst: "weightedDraw cs g = Some (p, g1) \<Longrightarrow> fst g1 = fst g"
  by (auto simp: weightedDraw_def Let_def Math_random_def split: option.splits if_splits)

lemma set_scoreCells:
  "set (scoreCells s cells) =
     {(p, calculateCellScore s (row p) (col p)) | p.
        p \<in> set cells \<and> \<not> hasShot s (row p) (col p) \<and> calculateCellScore s (row p) (col p) > 0}"
  by (auto simp: scoreCells_def)

lemma set_allCells: "set allCells = {p. isValid (row p) (col p)}"
proof -
  have "\<And>p. p \<in> set allCells \<longleftrightarrow> isValid (row p) (col p)"
  proof -
    fix p
    obtain r c where p: "p = Coord r c" by (cases p)
    show "p \<in> set allCells \<longleftrightarrow> isValid (row p) (col p)"
      by (auto simp: allCells_def isValid_def BOARD_SIZE_def p intro!: bexI[of _ r])
  qed
  then show ?thesis by blast
qed

lemma set_parityCells:
  "set parityCells = {p. isValid (row p) (col p) \<and> (row p + col p) mod 2 = 0}"
  by (auto simp: parityCells_def set_allCells)

lemma huntCandidates_parity:
  assumes "\<exists>p. p \<in> set parityCells \<and> scoredAt s p"
  shows "fst ` set (huntCandidates s) = {p. p \<in> set parityCells \<and> scoredAt s p}"
    and "huntCandidates s \<noteq> []"
proof -
  from assms have ne: "scoreCells s parityCells \<noteq> []"
    using set_scoreCells[of s parityCells] by (fastforce simp: scoredAt_def)
  then have eq: "huntCandidates s = scoreCells s parityCells"
    by (simp add: huntCandidates_def Let_def)
  show "huntCandidates s \<noteq> []" using ne eq by simp
  show "fst ` set (huntCandidates s) = {p. p \<in> set parityCells \<and> scoredAt s p}"
    unfolding eq set_scoreCells scoredAt_def by force
qed

lemma huntCandidates_all:
  assumes "\<not> (\<exists>p. p \<in> set parityCells \<and> scoredAt s p)"
  shows "fst ` set (huntCandidates s) = {p. p \<in> set allCells \<and> scoredAt s p}"
proof -
  from assms have "set (scoreCells s parityCells) = {}"
    unfolding set_scoreCells scoredAt_def by blast
  then have eq: "huntCandidates s = scoreCells s allCells"
    by (simp add: huntCandidates_def Let_def)
  show ?thesis unfolding eq set_scoreCells scoredAt_def by force
qed

lemma getSmartHuntShot_candidates:
  assumes "getSmartHuntShot s g = Some (shot, g1)" "huntCandidates s \<noteq> []"
  shows "shot \<in> fst ` set (huntCandidates s)"
  using assms weightedDraw_mem[of "huntCandidates s" g shot g1]
  by (simp add: getSmartHuntShot_def Let_def)

lemma getSmartHuntShot_fallback:
  assumes "getSmartHuntShot s g = Some (shot, g1)" "huntCandidates s = []"
  shows "if \<exists>p. p \<in> set allCells \<and> \<not> hasShot s (row p) (col p)
         then shot \<in> set allCells \<and> \<not> hasShot s (row shot) (col shot)
         else shot = Coord 0 0"
proof (cases "filter (\<lambda>p. \<not> hasShot s (row p) (col p)) allCells")
  case Nil
  then have "\<not> (\<exists>p. p \<in> set allCells \<and> \<not> hasShot s (row p) (col p))"
    by (simp add: filter_empty_conv)
  moreover from assms Nil have "shot = Coord 0 0"
    by (simp add: getSmartHuntShot_def Let_def)
  ultimately show ?thesis by (simp only: if_False)
next
  case (Cons q qs)
  then have "q \<in> set (filter (\<lambda>p. \<not> hasShot s (row p) (col p)) allCells)" by simp
  then have q: "q \<in> set allCells \<and> \<not> hasShot s (row q) (col q)" by simp
  moreover from assms Cons have "shot = q"
    by (simp add: getSmartHuntShot_def Let_def)
  ultimately show ?thesis by auto
qed

lemma getSmartHuntShot_spec:
  assumes "getSmartHuntShot s g = Some (shot, g1)"
  shows "if \<exists>p. isValid (row p) (col p) \<and> (row p + col p) mod 2 = 0 \<and> scoredAt s p
         then isValid (row shot) (col shot) \<and> (row shot + col shot) mod 2 = 0 \<and> scoredAt s shot
         else if \<exists>p. isValid (row p) (col p) \<and> scoredAt s p
         then isValid (row shot) (col shot) \<and> scoredAt s shot
         else if \<exists>p. isValid (row p) (col p) \<and> \<not> hasShot s (row p) (col p)
         then isValid (row shot) (col shot) \<and> \<not> hasShot s (row shot) (col shot)
         else shot = Coord 0 0"
proof (cases "\<exists>p. p \<in> set parityCells \<and> scoredAt s p")
  case True
  from huntCandidates_parity[OF True] getSmartHuntShot_candidates[OF assms]
  have "shot \<in> set parityCells \<and> scoredAt s shot" by blast
  with True show ?thesis by (auto simp: set_parityCells)
next
  case nopar: False
  show ?thesis
  proof (cases "\<exists>p. p \<in> set allCells \<and> scoredAt s p")
    case True
    then have "fst ` set (huntCandidates s) \<noteq> {}"
      unfolding huntCandidates_all[OF nopar] by auto
    then have "huntCandidates s \<noteq> []" by auto
    from getSmartHuntShot_candidates[OF assms this] huntCandidates_all[OF nopar]
    have "shot \<in> set allCells \<and> scoredAt s shot" by blast
    with True nopar show ?thesis by (auto simp: set_parityCells set_allCells)
  next
    case False
    then have "fst ` set (huntCandidates s) = {}"
      unfolding huntCandidates_all[OF nopar] by auto
    then have "huntCandidates s = []" by simp
    from getSmartHuntShot_fallback[OF assms this]
    have fb: "if \<exists>p. isValid (row p) (col p) \<and> \<not> hasShot s (row p) (col p)
              then isValid (row shot) (col shot) \<and> \<not> hasShot s (row shot) (col shot)
              else shot = Coord 0 0"
      by (simp add: set_allCells cong: if_cong)
    have n1: "(\<exists>p. isValid (row p) (col p) \<and> (row p + col p) mod 2 = 0 \<and> scoredAt s p) = False"
      using nopar by (simp add: set_parityCells)
    have n2: "(\<exists>p. isValid (row p) (col p) \<and> scoredAt s p) = False"
      using False by (simp add: set_allCells)
    show ?thesis by (simp only: n1 n2 if_False) (rule fb)
  qed
qed

lemma fresh_origin_scored: "scoredAt newBattleshipAI (Coord 0 0)"
  unfolding scoredAt_def by code_simp

lemma fresh_shot_parity:
  assumes "unitDraws g"
  shows "\<exists>shot s1 g1. getNextShot newBattleshipAI g = Some (shot, s1, g1) \<and>
           (row shot + col shot) mod 2 = 0 \<and> isValid (row shot) (col shot)"
proof -
  have m: "newBattleshipAI\<lparr>mode := Hunt\<rparr> = newBattleshipAI"
    by (simp add: newBattleshipAI_def)
  obtain shot g1 where r: "getSmartHuntShot newBattleshipAI g = Some (shot, g1)"
    using getSmartHuntShot_total[OF assms, of newBattleshipAI] by auto
  have "isValid (row (Coord 0 0)) (col (Coord 0 0)) \<and> (row (Coord 0 0) + col (Coord 0 0)) mod 2 = 0"
    by (simp add: isValid_def BOARD_SIZE_def)
  with fresh_origin_scored have ex:
    "\<exists>p. isValid (row p) (col p) \<and> (row p + col p) mod 2 = 0 \<and> scoredAt newBattleshipAI p"
    by (intro exI[of _ "Coord 0 0"]) simp
  from getSmartHuntShot_spec[OF r] ex
  have "isValid (row shot) (col shot) \<and> (row shot + col shot) mod 2 = 0" by simp
  moreover have "getNextShot newBattleshipAI g = Some (shot, newBattleshipAI, g1)"
    using r by (simp add: getNextShot_def Let_def m) (simp add: newBattleshipAI_def)
  ultimately show ?thesis by simp
qed

text \<open>
  C6. A fresh engine (no history, fleet \<open>[5,4,3,3,2]\<close>) returns only coordinates with
  \<open>(row + col) mod 2 = 0\<close>. In general the hunt shot is an unshot checkerboard cell of
  positive score when there is one; otherwise an unshot cell of positive score when there
  is one; otherwise an unshot cell of the grid when there is one; otherwise \<open>(0,0)\<close>.
\<close>

theorem hunt_shot_prefers_checkerboard:
  "(unitDraws g \<longrightarrow>
      (\<exists>shot s1 g1. getNextShot newBattleshipAI g = Some (shot, s1, g1) \<and>
         (row shot + col shot) mod 2 = 0 \<and> isValid (row shot) (col shot))) \<and>
   (\<forall>shot g1. getSmartHuntShot s g = Some (shot, g1) \<longrightarrow>
      (if \<exists>p. isValid (row p) (col p) \<and> (row p + col p) mod 2 = 0 \<and> scoredAt s p
       then isValid (row shot) (col shot) \<and> (row shot + col shot) mod 2 = 0 \<and> scoredAt s shot
       else if \<exists>p. isValid (row p) (col p) \<and> scoredAt s p
       then isValid (row shot) (col shot) \<and> scoredAt s shot
       else if \<exists>p. isValid (row p) (col p) \<and> \<not> hasShot s (row p) (col p)
       then isValid (row shot) (col shot) \<and> \<not> hasShot s (row shot) (col shot)
       else shot = Coord 0 0))"
proof (intro conjI impI allI)
  assume "unitDraws g"
  then show "\<exists>shot s1 g1. getNextShot newBattleshipAI g = Some (shot, s1, g1) \<and>
         (row shot + col shot) mod 2 = 0 \<and> isValid (row shot) (col shot)"
    by (rule fresh_shot_parity)
next
  fix shot g1
  assume "getSmartHuntShot s g = Some (shot, g1)"
  then show "if \<exists>p. isValid (row p) (col p) \<and> (row p + col p) mod 2 = 0 \<and> scoredAt s p
       then isValid (row shot) (col shot) \<and> (row shot + col shot) mod 2 = 0 \<and> scoredAt s shot
       else if \<exists>p. isValid (row p) (col p) \<and> scoredAt s p
       then isValid (row shot) (col shot) \<and> scoredAt s shot
       else if \<exists>p. isValid (row p) (col p) \<and> \<not> hasShot s (row p) (col p)
       then isValid (row shot) (col shot) \<and> \<not> hasShot s (row shot) (col shot)
       else shot = Coord 0 0"
    by (rule getSmartHuntShot_spec)
qed

theorem hunt_shot_prefers_checkerboard_witness:
  "unitDraws (\<lambda>_. 1 / 2, 0) \<and>
   (\<exists>shot s1 g1. getNextShot newBattleshipAI (\<lambda>_. 1 / 2, 0) = Some (shot, s1, g1) \<and>
      (row shot + col shot) mod 2 = 0 \<and> isValid (row shot) (col shot))"
proof -
  have u: "unitDraws (\<lambda>_. 1 / 2, 0)" by (simp add: unitDraws_def)
  from hunt_shot_prefers_checkerboard[of "(\<lambda>_. 1 / 2, 0)" newBattleshipAI, THEN conjunct1] u
  show ?thesis by simp
qed

section \<open>Engine: well-formed target queues\<close>

lemma someAt_iff: "someAt p xs \<longleftrightarrow> p \<in> set xs"
proof -
  have "\<And>h. (row h = row p \<and> col h = col p) = (h = p)"
    by (metis Coord.expand)
  then show ?thesis by (simp add: someAt_def list_ex_iff)
qed

lemma cellOK_shots: "shotsFired s1 = shotsFired s \<Longrightarrow> cellOK s1 = cellOK s"
  by (auto simp: cellOK_def hasShot_def fun_eq_iff)

lemma queueOK_shots: "shotsFired s1 = shotsFired s \<Longrightarrow> queueOK s1 q = queueOK s q"
  using cellOK_shots[of s1 s] by (simp add: queueOK_def)

lemma queueOK_Nil: "queueOK s []"
  by (simp add: queueOK_def)

lemma distinct_map_sort_key: "distinct (map g (sort_key f xs)) = distinct (map g xs)"
  by (simp add: distinct_map)

lemma queueOK_sorted:
  "queueOK s (map fst (sortByScoreDesc xs)) = queueOK s (map fst xs)"
  by (simp add: queueOK_def sortByScoreDesc_def distinct_map_sort_key list_all_iff)

lemma hd_sort_le_last:
  fixes xs :: "int list"
  assumes "xs \<noteq> []"
  shows "hd (sort xs) \<le> last (sort xs)"
proof -
  let ?ys = "sort xs"
  have ne: "?ys \<noteq> []" using assms by (metis length_0_conv length_sort)
  have "?ys ! 0 \<le> ?ys ! (length ?ys - 1)"
  proof (rule sorted_nth_mono)
    show "sorted ?ys" by simp
    show "0 \<le> length ?ys - 1" by simp
    from ne have "length ?ys \<noteq> 0" by (simp only: length_0_conv not_False_eq_True)
    then show "length ?ys - 1 < length ?ys" by linarith
  qed
  then show ?thesis using ne by (simp add: hd_conv_nth last_conv_nth)
qed

lemma extensionCells_cellOK: "p \<in> set (extensionCells s t hs) \<Longrightarrow> cellOK s p"
  by (cases t) (auto simp: extensionCells_def Let_def cellOK_def split: if_splits)

lemma extensionCells_distinct:
  assumes "hs \<noteq> []"
  shows "distinct (extensionCells s t hs)"
proof (cases t)
  case Horizontal
  have "hd (sort (map col hs)) \<le> last (sort (map col hs))"
    using assms by (intro hd_sort_le_last) simp
  then show ?thesis using Horizontal by (auto simp: extensionCells_def Let_def)
next
  case Vertical
  have "hd (sort (map row hs)) \<le> last (sort (map row hs))"
    using assms by (intro hd_sort_le_last) simp
  then show ?thesis using Vertical by (auto simp: extensionCells_def Let_def)
qed

lemma queueOK_extensionCells: "hs \<noteq> [] \<Longrightarrow> queueOK s (extensionCells s t hs)"
  using extensionCells_cellOK[of _ s t hs] extensionCells_distinct[of hs s t]
  by (auto simp: queueOK_def list_all_iff)

lemma distinct_concat_tagged:
  assumes "\<And>d p. d \<in> set ds \<Longrightarrow> p \<in> set (F d) \<Longrightarrow> tag p = k d"
    and "\<And>d. d \<in> set ds \<Longrightarrow> distinct (F d)"
    and "distinct (map k ds)"
  shows "distinct (concat (map F ds))"
  using assms
proof (induction ds)
  case Nil
  then show ?case by simp
next
  case (Cons d ds)
  have IH: "distinct (concat (map F ds))"
    using Cons by simp
  have "set (F d) \<inter> set (concat (map F ds)) = {}"
  proof (rule ccontr)
    assume "set (F d) \<inter> set (concat (map F ds)) \<noteq> {}"
    then obtain p e where p: "p \<in> set (F d)" and e: "e \<in> set ds" "p \<in> set (F e)" by auto
    from Cons.prems(1)[of d p] p have "tag p = k d" by simp
    moreover from Cons.prems(1)[of e p] e have "tag p = k e" by simp
    ultimately have "k d = k e" by simp
    then have "k d \<in> k ` set ds" using e(1) by (rule image_eqI)
    with Cons.prems(3) show False by simp
  qed
  with IH Cons.prems(2)[of d] show ?case by simp
qed

lemma scoredNeighbor_cases:
  "scoredNeighbor s h d = [] \<or>
   (\<exists>n. scoredNeighbor s h d = [(stepFrom d (row h) (col h) 1, n)] \<and>
        cellOK s (stepFrom d (row h) (col h) 1))"
  by (simp add: scoredNeighbor_def Let_def cellOK_def)

lemma scoredNeighbor_fst:
  "x \<in> set (scoredNeighbor s h d) \<Longrightarrow> fst x = stepFrom d (row h) (col h) 1 \<and> cellOK s (fst x)"
  using scoredNeighbor_cases[of s h d] by auto

lemma scoredNeighbor_distinct: "distinct (map fst (scoredNeighbor s h d))"
  using scoredNeighbor_cases[of s h d] by auto

lemma queueOK_I: "distinct q \<Longrightarrow> (\<And>p. p \<in> set q \<Longrightarrow> cellOK s p) \<Longrightarrow> queueOK s q"
  by (simp add: queueOK_def list_all_iff)

lemma queueOK_firstHitQueue: "queueOK s (firstHitQueue s coord)"
proof -
  let ?F = "\<lambda>d. map fst (scoredNeighbor s coord d)"
  let ?ds = "[Up, Down, Left, Right]"
  have eq: "map fst (concat (map (scoredNeighbor s coord) ?ds)) = concat (map ?F ?ds)"
    by (simp add: map_concat)
  have "distinct (concat (map ?F ?ds))"
  proof (rule distinct_concat_tagged[where tag = "\<lambda>p. p" and k = "\<lambda>d. stepFrom d (row coord) (col coord) 1"])
    show "\<And>d p. d \<in> set ?ds \<Longrightarrow> p \<in> set (?F d) \<Longrightarrow> p = stepFrom d (row coord) (col coord) 1"
      using scoredNeighbor_fst[of _ s coord] by auto
    show "\<And>d. d \<in> set ?ds \<Longrightarrow> distinct (?F d)" by (rule scoredNeighbor_distinct)
    show "distinct (map (\<lambda>d. stepFrom d (row coord) (col coord) 1) ?ds)"
      by (simp add: stepFrom_def)
  qed
  moreover have "\<And>p. p \<in> set (concat (map ?F ?ds)) \<Longrightarrow> cellOK s p"
    using scoredNeighbor_fst[of _ s coord] by auto
  ultimately have "queueOK s (concat (map ?F ?ds))" by (rule queueOK_I)
  then show ?thesis unfolding firstHitQueue_def queueOK_sorted eq .
qed

lemma continueFrom_increasing:
  "sorted_wrt (<) (map (alongAxis t) (prev # continueFrom t prev rest))"
proof (induction rest arbitrary: prev)
  case Nil
  then show ?case by simp
next
  case (Cons cur rest)
  show ?case
  proof (cases "alongAxis t cur = alongAxis t prev + 1")
    case True
    then have step: "continueFrom t prev (cur # rest) = cur # continueFrom t cur rest"
      by (cases t) (simp_all add: alongAxis_def)
    from Cons.IH[of cur] have sw: "sorted_wrt (<) (map (alongAxis t) (cur # continueFrom t cur rest))" .
    then have "\<forall>x \<in> set (continueFrom t cur rest). alongAxis t cur < alongAxis t x" by simp
    with True have "\<forall>x \<in> set (cur # continueFrom t cur rest). alongAxis t prev < alongAxis t x"
      by auto
    with sw show ?thesis unfolding step by simp
  next
    case False
    then have "continueFrom t prev (cur # rest) = []"
      by (cases t) (simp_all add: alongAxis_def)
    then show ?thesis by simp
  qed
qed

lemma findContinuousHits_line:
  assumes "xs \<noteq> []"
  shows "findContinuousHits xs t \<noteq> [] \<and> distinct (map (alongAxis t) (findContinuousHits xs t))"
proof -
  from assms obtain x rest where xs: "xs = x # rest" by (cases xs) auto
  have "sorted_wrt (<) (map (alongAxis t) (x # continueFrom t x rest))"
    by (rule continueFrom_increasing)
  then have "distinct (map (alongAxis t) (x # continueFrom t x rest))"
    by (simp only: strict_sorted_iff)
  then show ?thesis by (simp add: xs)
qed


lemma scoredNeighbor_cellOK: "x \<in> set (scoredNeighbor s h d) \<Longrightarrow> cellOK s (fst x)"
  using scoredNeighbor_fst by blast

lemma scoredNeighbor_at: "x \<in> set (scoredNeighbor s h d) \<Longrightarrow> fst x = stepFrom d (row h) (col h) 1"
  using scoredNeighbor_fst by blast

lemma longestIn_lineOK:
  assumes "\<And>t hs. fst acc = Some (t, hs) \<Longrightarrow> lineOK t hs"
    and "fst (longestIn t0 groups acc) = Some (t, hs)"
  shows "lineOK t hs"
  using assms
proof (induction groups arbitrary: acc)
  case Nil
  then show ?case by simp
next
  case (Cons grp groups)
  obtain k g where grp: "grp = (k, g)" by (cases grp)
  obtain ll n where acc: "acc = (ll, n)" by (cases acc)
  let ?c = "findContinuousHits (sortAlong t0 g) t0"
  show ?case
  proof (cases "length g \<ge> 2 \<and> length ?c > n")
    case True
    then have "sortAlong t0 g \<noteq> []"
      by (cases t0) (auto simp: sortAlong_def)
    from findContinuousHits_line[OF this, of t0] have ok: "lineOK t0 ?c"
      by (simp add: lineOK_def)
    have run: "longestIn t0 (grp # groups) acc = longestIn t0 groups (Some (t0, ?c), length ?c)"
      using True by (simp add: grp acc Let_def)
    show ?thesis
    proof (rule Cons.IH[of "(Some (t0, ?c), length ?c)"])
      show "\<And>t hs. fst (Some (t0, ?c), length ?c) = Some (t, hs) \<Longrightarrow> lineOK t hs"
        using ok by simp
      show "fst (longestIn t0 groups (Some (t0, ?c), length ?c)) = Some (t, hs)"
        using Cons.prems(2) run by simp
    qed
  next
    case False
    then have run: "longestIn t0 (grp # groups) acc = longestIn t0 groups acc"
      by (auto simp: grp acc Let_def)
    show ?thesis
      by (rule Cons.IH[of acc]) (use Cons.prems run in simp_all)
  qed
qed

lemma rebuild_line_lineOK:
  assumes "fst (longestIn Vertical cg (longestIn Horizontal rg (None, 0))) = Some (t, hs)"
  shows "lineOK t hs"
proof (rule longestIn_lineOK[OF _ assms])
  fix t' hs'
  assume "fst (longestIn Horizontal rg (None, 0)) = Some (t', hs')"
  then show "lineOK t' hs'"
    by (rule longestIn_lineOK[rotated]) simp
qed

lemma perpendicularTargets_queueOK:
  assumes "lineOK t hs"
  shows "queueOK s (map fst (perpendicularTargets s t hs))"
proof -
  let ?F = "\<lambda>hit. map fst (case t of
                          Horizontal \<Rightarrow> scoredNeighbor s hit Up @ scoredNeighbor s hit Down
                        | Vertical \<Rightarrow> scoredNeighbor s hit Left @ scoredNeighbor s hit Right)"
  have eq: "map fst (perpendicularTargets s t hs) = concat (map ?F hs)"
    by (simp add: perpendicularTargets_def map_concat comp_def)
  have mem: "\<And>hit p. p \<in> set (?F hit) \<Longrightarrow> alongAxis t p = alongAxis t hit \<and> cellOK s p"
  proof -
    fix hit p assume "p \<in> set (?F hit)"
    then obtain x d where x: "x \<in> set (scoredNeighbor s hit d)" "p = fst x"
      and d: "(t = Horizontal \<and> (d = Up \<or> d = Down)) \<or> (t = Vertical \<and> (d = Left \<or> d = Right))"
      by (cases t) auto
    from scoredNeighbor_at[OF x(1)] x(2) have "p = stepFrom d (row hit) (col hit) 1" by simp
    with d have "alongAxis t p = alongAxis t hit"
      by (auto simp: alongAxis_def stepFrom_def)
    with scoredNeighbor_cellOK[OF x(1)] x(2) show "alongAxis t p = alongAxis t hit \<and> cellOK s p"
      by simp
  qed
  have dist: "\<And>hit. distinct (?F hit)"
  proof -
    fix hit
    show "distinct (?F hit)"
      using scoredNeighbor_cases[of s hit Up] scoredNeighbor_cases[of s hit Down]
        scoredNeighbor_cases[of s hit Left] scoredNeighbor_cases[of s hit Right]
      by (cases t) (auto simp: stepFrom_def)
  qed
  have "distinct (concat (map ?F hs))"
  proof (rule distinct_concat_tagged[where tag = "alongAxis t" and k = "alongAxis t"])
    show "\<And>d p. d \<in> set hs \<Longrightarrow> p \<in> set (?F d) \<Longrightarrow> alongAxis t p = alongAxis t d"
      using mem by blast
    show "\<And>d. d \<in> set hs \<Longrightarrow> distinct (?F d)" using dist by blast
    show "distinct (map (alongAxis t) hs)" using assms by (simp add: lineOK_def)
  qed
  moreover have "\<And>p. p \<in> set (concat (map ?F hs)) \<Longrightarrow> cellOK s p"
    using mem by auto
  ultimately show ?thesis unfolding eq by (rule queueOK_I)
qed

lemma addNeighbor_queueOK:
  assumes "queueOK s (map fst acc)"
  shows "queueOK s (map fst (addNeighbor s hit acc d))"
proof (cases "scoredNeighbor s hit d")
  case Nil
  with assms show ?thesis by (simp add: addNeighbor_def)
next
  case (Cons n ns)
  then have "n \<in> set (scoredNeighbor s hit d)" by simp
  from scoredNeighbor_cellOK[OF this] have ok: "cellOK s (fst n)" .
  show ?thesis
  proof (cases "someAt (fst n) (map fst acc)")
    case True
    with assms Cons show ?thesis by (simp add: addNeighbor_def)
  next
    case False
    then have "fst n \<notin> set (map fst acc)" unfolding someAt_iff .
    with assms ok have "queueOK s (map fst (acc @ [n]))"
      by (simp add: queueOK_def)
    with False Cons show ?thesis by (simp add: addNeighbor_def)
  qed
qed

lemma foldl_addNeighbor_queueOK:
  "queueOK s (map fst acc) \<Longrightarrow> queueOK s (map fst (foldl (addNeighbor s hit) acc ds))"
  by (induction ds arbitrary: acc) (simp_all add: addNeighbor_queueOK)

lemma allNeighbors_from_queueOK:
  "queueOK s (map fst acc) \<Longrightarrow>
   queueOK s (map fst (foldl (\<lambda>acc hit. foldl (addNeighbor s hit) acc [Up, Down, Left, Right]) acc hs))"
proof (induction hs arbitrary: acc)
  case Nil
  then show ?case by simp
next
  case (Cons h hs)
  from foldl_addNeighbor_queueOK[OF Cons.prems, of h "[Up, Down, Left, Right]"]
  have "queueOK s (map fst (foldl (addNeighbor s h) acc [Up, Down, Left, Right]))" .
  from Cons.IH[OF this] show ?case by simp
qed

lemma allNeighbors_queueOK: "queueOK s (map fst (allNeighbors s))"
  unfolding allNeighbors_def
  by (rule allNeighbors_from_queueOK) (simp add: queueOK_Nil)

lemma rebuildTargetQueue_queueOK:
  assumes "targetQueue s = []"
  shows "queueOK s (targetQueue (rebuildTargetQueue s))"
proof -
  let ?ll = "fst (longestIn Vertical (groupHits col (hits s))
                   (longestIn Horizontal (groupHits row (hits s)) (None, 0)))"
  let ?an = "map fst (sortByScoreDesc (allNeighbors s))"
  have an: "queueOK s ?an" by (simp add: queueOK_sorted allNeighbors_queueOK)
  show ?thesis
  proof (cases ?ll)
    case None
    then show ?thesis
      using assms an by (simp add: rebuildTargetQueue_def Let_def)
  next
    case (Some a)
    obtain t hs where a: "a = (t, hs)" by (cases a)
    from rebuild_line_lineOK[of "groupHits col (hits s)" "groupHits row (hits s)" t hs] Some a
    have ok: "lineOK t hs" by simp
    then have ne: "hs \<noteq> []" by (simp add: lineOK_def)
    let ?ext = "extensionCells s t hs"
    let ?perp = "map fst (sortByScoreDesc (perpendicularTargets s t hs))"
    have ext: "queueOK s ?ext" by (rule queueOK_extensionCells[OF ne])
    have perp: "queueOK s ?perp"
      by (simp add: queueOK_sorted perpendicularTargets_queueOK[OF ok])
    have "targetQueue (rebuildTargetQueue s) =
            (if ?ext = [] then (if ?perp = [] then ?an else ?perp) else ?ext)"
      using assms Some a by (simp add: rebuildTargetQueue_def Let_def)
    with ext perp an show ?thesis by simp
  qed
qed

section \<open>Engine: reports keep the invariant\<close>

lemma queueOK_partition:
  assumes "queueOK s q"
  shows "queueOK s (filter P q @ filter (\<lambda>t. \<not> P t) q)"
  using assms by (auto simp: queueOK_def list_all_iff)

lemma unshift_queueOK:
  assumes "queueOK s q" "\<And>p. p \<in> set ts \<Longrightarrow> cellOK s p"
  shows "queueOK s (foldl (\<lambda>q target. if someAt target q then q else target # q) q ts)"
  using assms
proof (induction ts arbitrary: q)
  case Nil
  then show ?case by simp
next
  case (Cons t ts)
  have "queueOK s (if someAt t q then q else t # q)"
    using Cons.prems by (simp add: queueOK_def someAt_iff)
  from Cons.IH[OF this] Cons.prems(2) show ?case by simp
qed

lemma unshiftExtensions_queueOK:
  "queueOK s q \<Longrightarrow> queueOK s (unshiftExtensions s q line)"
  unfolding unshiftExtensions_def
  by (rule unshift_queueOK) (simp_all add: extensionCells_cellOK)

lemma foldl_unshiftExtensions_queueOK:
  "queueOK s q \<Longrightarrow> queueOK s (foldl (unshiftExtensions s) q ls)"
  by (induction ls arbitrary: q) (simp_all add: unshiftExtensions_queueOK)

lemma reprioritized_queueOK:
  assumes "queueOK s (targetQueue s)"
  shows "queueOK s (reprioritized s coord)"
proof -
  let ?nl = "filter (someAt coord) (findAllLines s)"
  let ?q = "filter (\<lambda>t. list_ex (wouldExtendLine t) ?nl) (targetQueue s) @
            filter (\<lambda>t. \<not> list_ex (wouldExtendLine t) ?nl) (targetQueue s)"
  have q: "queueOK s ?q" by (rule queueOK_partition[OF assms])
  then have "queueOK s (foldl (unshiftExtensions s) ?q ?nl)"
    by (rule foldl_unshiftExtensions_queueOK)
  with q show ?thesis unfolding reprioritized_def Let_def by presburger
qed

lemma reportSecondHit_inv:
  assumes "queueOK s (targetQueue s)"
  shows "queueOK (reportSecondHit s coord) (targetQueue (reportSecondHit s coord)) \<and>
         shotsFired (reportSecondHit s coord) = shotsFired s \<and>
         hits (reportSecondHit s coord) = hits s"
proof -
  have e1: "queueOK s (extensionCells s Horizontal [hd (hits s), coord])"
    by (rule queueOK_extensionCells) simp
  have e2: "queueOK s (extensionCells s Vertical [hd (hits s), coord])"
    by (rule queueOK_extensionCells) simp
  have sh: "shotsFired (reportSecondHit s coord) = shotsFired s"
    by (simp add: reportSecondHit_def Let_def)
  have "queueOK s (targetQueue (reportSecondHit s coord))"
    using assms e1 e2 by (simp add: reportSecondHit_def Let_def)
  with sh show ?thesis
    using queueOK_shots[OF sh] by (simp add: reportSecondHit_def Let_def)
qed

lemma reportFurtherHit_inv:
  assumes "queueOK s (targetQueue s)"
  shows "queueOK (fst (reportFurtherHit s coord)) (targetQueue (fst (reportFurtherHit s coord))) \<and>
         shotsFired (fst (reportFurtherHit s coord)) = shotsFired s \<and>
         hits (fst (reportFurtherHit s coord)) = hits s"
proof -
  let ?r = "fst (reportFurtherHit s coord)"
  let ?b = "bestLineOf (findAllLines s)"
  have sh: "shotsFired ?r = shotsFired s" and hh: "hits ?r = hits s"
    by (simp_all add: reportFurtherHit_def Let_def)
  have ext: "2 \<le> length ?b \<Longrightarrow> queueOK s (extensionCells s (axisOf ?b) ?b)"
    by (rule queueOK_extensionCells) auto
  have "queueOK s (targetQueue ?r)"
    using assms ext reprioritized_queueOK[OF assms, of coord]
    by (simp add: reportFurtherHit_def Let_def)
  with sh hh show ?thesis using queueOK_shots[OF sh] by simp
qed

lemma reportHit_inv:
  assumes "queueOK s0 (targetQueue s0)"
  shows "queueOK (fst (reportHit s0 coord)) (targetQueue (fst (reportHit s0 coord))) \<and>
         shotsFired (fst (reportHit s0 coord)) = shotsFired s0 \<and>
         hits (fst (reportHit s0 coord)) \<noteq> []"
proof -
  define s where "s = s0\<lparr>mode := Target, lastHit := Some coord, hits := hits s0 @ [coord]\<rparr>"
  have sh: "shotsFired s = shotsFired s0" and q: "targetQueue s = targetQueue s0"
    and h: "hits s \<noteq> []"
    by (simp_all add: s_def)
  have qs: "queueOK s (targetQueue s)" using assms queueOK_shots[OF sh] q by simp
  have unfold: "reportHit s0 coord =
      (if length (hits s) = 1 then (s\<lparr>targetQueue := firstHitQueue s coord\<rparr>, None)
       else if length (hits s) = 2 then (reportSecondHit s coord, None)
       else reportFurtherHit s coord)"
    by (simp add: reportHit_def Let_def s_def)
  have first: "queueOK (s\<lparr>targetQueue := firstHitQueue s coord\<rparr>) (firstHitQueue s coord)"
    using queueOK_firstHitQueue[of s coord]
      queueOK_shots[of "s\<lparr>targetQueue := firstHitQueue s coord\<rparr>" s] by simp
  show ?thesis
    unfolding unfold
    using first reportSecondHit_inv[OF qs, of coord] reportFurtherHit_inv[OF qs, of coord] sh h
    by simp
qed

lemma reportMiss_inv:
  assumes "queueOK s0 (targetQueue s0)" "targetQueue s0 = [] \<or> hits s0 \<noteq> []"
  shows "queueOK (reportMiss s0 coord) (targetQueue (reportMiss s0 coord)) \<and>
         shotsFired (reportMiss s0 coord) = shotsFired s0 \<and>
         (targetQueue (reportMiss s0 coord) = [] \<or> hits (reportMiss s0 coord) \<noteq> [])"
proof -
  define s where "s = s0\<lparr>misses := insert coord (misses s0)\<rparr>"
  define r where "r = rebuildTargetQueue (s\<lparr>targetQueue := []\<rparr>)"
  have "queueOK (s\<lparr>targetQueue := []\<rparr>) (targetQueue r)"
    unfolding r_def by (rule rebuildTargetQueue_queueOK) simp
  moreover have rs: "shotsFired r = shotsFired s0" and rh: "hits r = hits s0"
    by (simp_all add: r_def s_def rebuildTargetQueue_frame)
  ultimately have rq: "queueOK r (targetQueue r)"
    using queueOK_shots[of r "s\<lparr>targetQueue := []\<rparr>"] by (simp add: s_def)
  have ss: "shotsFired s = shotsFired s0" and sq: "targetQueue s = targetQueue s0"
    and shh: "hits s = hits s0"
    by (simp_all add: s_def)
  have sq_ok: "queueOK s (targetQueue s)"
    using assms(1) queueOK_shots[OF ss] sq by simp
  have cases: "reportMiss s0 coord = s \<or> (reportMiss s0 coord = r \<and> hits s0 \<noteq> [])"
    by (auto simp: reportMiss_def Let_def s_def r_def)
  then show ?thesis
  proof
    assume "reportMiss s0 coord = s"
    with sq_ok ss sq shh assms(2) show ?thesis by simp
  next
    assume "reportMiss s0 coord = r \<and> hits s0 \<noteq> []"
    with rq rs rh show ?thesis by simp
  qed
qed

lemma reportSunk_inv:
  "queueOK (reportSunk s coord sc) (targetQueue (reportSunk s coord sc)) \<and>
   shotsFired (reportSunk s coord sc) = shotsFired s \<and>
   (targetQueue (reportSunk s coord sc) = [] \<or> hits (reportSunk s coord sc) \<noteq> [])"
proof -
  define htr where "htr = (case sc of None \<Rightarrow> guessedHits s coord
             | Some cs \<Rightarrow> if length cs > 0 then filter (\<lambda>hit. someAt hit cs) (hits s)
                 else guessedHits s coord)"
  define s2 where "s2 = s\<lparr>remainingShipSizes := remove1 (length htr) (remainingShipSizes s),
                          hits := filter (\<lambda>hit. \<not> someAt hit htr) (hits s)\<rparr>"
  define r where "r = rebuildTargetQueue (s2\<lparr>mode := Target, targetQueue := []\<rparr>)"
  have unfold: "reportSunk s coord sc =
      (if length (hits s2) > 0 then r
       else s2\<lparr>mode := Hunt, targetQueue := [], lastHit := None, firstHit := None,
               lastProbeDirection := None\<rparr>)"
    by (simp add: reportSunk_def Let_def htr_def s2_def r_def)
  have "queueOK (s2\<lparr>mode := Target, targetQueue := []\<rparr>) (targetQueue r)"
    unfolding r_def by (rule rebuildTargetQueue_queueOK) simp
  moreover have rs: "shotsFired r = shotsFired s" and rh: "hits r = hits s2"
    by (simp_all add: r_def s2_def rebuildTargetQueue_frame)
  ultimately have rq: "queueOK r (targetQueue r)"
    using queueOK_shots[of r "s2\<lparr>mode := Target, targetQueue := []\<rparr>"] by (simp add: s2_def)
  show ?thesis
    unfolding unfold using rq rs rh by (simp add: queueOK_Nil s2_def)
qed

lemma reportResult_inv:
  assumes inv: "engineInv s" and fresh: "coord \<notin> set (targetQueue s)"
    and cell: "coord \<in> set allCells"
  shows "engineInv (fst (reportResult s coord res sc)) \<and>
         shotsFired (fst (reportResult s coord res sc)) = insert coord (shotsFired s)"
proof -
  define s1 where "s1 = s\<lparr>shotsFired := insert (Coord (row coord) (col coord)) (shotsFired s)\<rparr>"
  have s1f: "shotsFired s1 = insert coord (shotsFired s)" by (simp add: s1_def)
  have q1: "queueOK s1 (targetQueue s1)"
    using inv fresh
    by (auto simp: engineInv_def queueOK_def list_all_iff cellOK_def hasShot_def s1_def)
  have e1: "targetQueue s1 = [] \<or> hits s1 \<noteq> []"
    using inv by (simp add: engineInv_def s1_def)
  have sub: "insert coord (shotsFired s) \<subseteq> set allCells"
    using inv cell by (simp add: engineInv_def)
  show ?thesis
  proof (cases res)
    case Hit
    then have "fst (reportResult s coord res sc) = fst (reportHit s1 coord)"
      by (simp add: reportResult_def Let_def s1_def)
    with reportHit_inv[OF q1, of coord] s1f sub show ?thesis
      by (simp add: engineInv_def)
  next
    case Miss
    then have "fst (reportResult s coord res sc) = reportMiss s1 coord"
      by (simp add: reportResult_def Let_def s1_def)
    with reportMiss_inv[OF q1 e1, of coord] s1f sub show ?thesis
      by (simp add: engineInv_def)
  next
    case Sunk
    then have "fst (reportResult s coord res sc) = reportSunk s1 coord sc"
      by (simp add: reportResult_def Let_def s1_def)
    with reportSunk_inv[of s1 coord sc] s1f sub show ?thesis
      by (simp add: engineInv_def)
  qed
qed

section \<open>Engine: sessions\<close>

lemma card_allCells: "distinct allCells \<and> length allCells = 100"
  by code_simp

lemma Coord00_cell: "Coord 0 0 \<in> set allCells"
  by (simp add: set_allCells isValid_def BOARD_SIZE_def)

lemma getSmartHuntShot_fst: "getSmartHuntShot s g = Some (shot, g1) \<Longrightarrow> fst g1 = fst g"
  by (auto simp: getSmartHuntShot_def Let_def split: if_splits list.splits dest: weightedDraw_fst)

lemma hunt_shot_unshot:
  assumes "getSmartHuntShot s g = Some (shot, g1)"
  shows "shot \<in> set allCells \<and> (\<not> set allCells \<subseteq> shotsFired s \<longrightarrow> shot \<notin> shotsFired s)"
proof -
  note sp = getSmartHuntShot_spec[OF assms]
  let ?P1 = "\<exists>p. isValid (row p) (col p) \<and> (row p + col p) mod 2 = 0 \<and> scoredAt s p"
  let ?P2 = "\<exists>p. isValid (row p) (col p) \<and> scoredAt s p"
  let ?P3 = "\<exists>p. isValid (row p) (col p) \<and> \<not> hasShot s (row p) (col p)"
  have unshot: "\<not> set allCells \<subseteq> shotsFired s \<Longrightarrow> ?P3"
  proof -
    assume "\<not> set allCells \<subseteq> shotsFired s"
    then obtain p where "p \<in> set allCells" "p \<notin> shotsFired s" by auto
    then have "isValid (row p) (col p) \<and> \<not> hasShot s (row p) (col p)"
      by (simp add: set_allCells hasShot_def)
    then show ?P3 by (rule exI)
  qed
  consider (a) ?P1 | (b) "\<not> ?P1" ?P2 | (c) "\<not> ?P1" "\<not> ?P2" ?P3 | (d) "\<not> ?P1" "\<not> ?P2" "\<not> ?P3"
    by argo
  then show ?thesis
  proof cases
    case a
    with sp have "isValid (row shot) (col shot) \<and> scoredAt s shot" by (simp only: if_True simp_thms)
    then show ?thesis by (simp add: set_allCells scoredAt_def hasShot_def)
  next
    case b
    with sp have "isValid (row shot) (col shot) \<and> scoredAt s shot" by (simp only: if_True if_False simp_thms)
    then show ?thesis by (simp add: set_allCells scoredAt_def hasShot_def)
  next
    case c
    with sp have "isValid (row shot) (col shot) \<and> \<not> hasShot s (row shot) (col shot)"
      by (simp only: if_True if_False simp_thms)
    then show ?thesis by (simp add: set_allCells hasShot_def)
  next
    case d
    with sp have "shot = Coord 0 0" by (simp only: if_False simp_thms)
    with d(3) unshot Coord00_cell show ?thesis by auto
  qed
qed

lemma ensureQueue_inv:
  assumes "queueOK s (targetQueue s)"
  shows "queueOK (ensureQueue s) (targetQueue (ensureQueue s))"
proof -
  have sh: "shotsFired (ensureQueue s) = shotsFired s" by (simp add: ensureQueue_frame)
  show ?thesis
  proof (cases "targetQueue s = []")
    case True
    then have "targetQueue (s\<lparr>mode := Target\<rparr>) = []" by simp
    from rebuildTargetQueue_queueOK[OF this]
    have "queueOK (s\<lparr>mode := Target\<rparr>) (targetQueue (ensureQueue s))"
      using True by (simp add: ensureQueue_def Let_def)
    then show ?thesis
      using queueOK_shots[of "ensureQueue s" "s\<lparr>mode := Target\<rparr>"] sh by simp
  next
    case False
    then have "targetQueue (ensureQueue s) = targetQueue s"
      by (simp add: ensureQueue_def Let_def)
    with assms show ?thesis using queueOK_shots[OF sh] by simp
  qed
qed

lemma strandedShot_shot:
  assumes "strandedShot s g = Some (shot, s1, g1)"
  shows "shot \<in> set allCells \<and> (\<not> set allCells \<subseteq> shotsFired s \<longrightarrow> shot \<notin> shotsFired s) \<and>
         fst g1 = fst g"
proof -
  obtain vh ga where k: "keepValidHits s (hits s) g = (vh, ga)"
    by (cases "keepValidHits s (hits s) g")
  define s3 where "s3 = (if length vh < length (hits s) then s\<lparr>hits := vh\<rparr> else s)"
  have sh: "shotsFired s3 = shotsFired s" by (simp add: s3_def)
  from assms[unfolded strandedShot_unfold[OF k s3_def]]
  obtain s' where r: "getSmartHuntShot s' ga = Some (shot, g1)" and s': "shotsFired s' = shotsFired s"
    using sh by (auto split: if_splits)
  from hunt_shot_unshot[OF r] getSmartHuntShot_fst[OF r] keepValidHits_fst[OF k] s'
  show ?thesis by simp
qed

lemma getNextShot_inv:
  assumes inv: "engineInv s" and run: "getNextShot s g = Some (shot, s1, g1)"
  shows "engineInv s1 \<and> shotsFired s1 = shotsFired s \<and> shot \<notin> set (targetQueue s1) \<and>
         shot \<in> set allCells \<and> (\<not> set allCells \<subseteq> shotsFired s \<longrightarrow> shot \<notin> shotsFired s) \<and>
         fst g1 = fst g"
proof (cases "length (hits s) > 0")
  case False
  then have h: "hits s = []" by simp
  with inv have q: "targetQueue s = []" by (simp add: engineInv_def)
  from run h obtain r: "getSmartHuntShot (s\<lparr>mode := Hunt\<rparr>) g = Some (shot, g1)"
    and s1: "s1 = s\<lparr>mode := Hunt\<rparr>"
    by (auto simp: getNextShot_def Let_def split: option.splits)
  from hunt_shot_unshot[OF r] getSmartHuntShot_fst[OF r] inv q s1
  show ?thesis by (simp add: engineInv_def queueOK_Nil)
next
  case True
  let ?s2 = "ensureQueue s"
  have q2: "queueOK ?s2 (targetQueue ?s2)"
    using inv by (intro ensureQueue_inv) (simp add: engineInv_def)
  have f2: "shotsFired ?s2 = shotsFired s" and h2: "hits ?s2 = hits s"
    by (simp_all add: ensureQueue_frame)
  have sub: "shotsFired s \<subseteq> set allCells" using inv by (simp add: engineInv_def)
  show ?thesis
  proof (cases "targetQueue ?s2")
    case Nil
    with run True have st: "strandedShot ?s2 g = Some (shot, s1, g1)"
      by (simp add: getNextShot_def Let_def)
    from strandedShot_frame[OF st] Nil f2
    have "targetQueue s1 = []" "shotsFired s1 = shotsFired s" by simp_all
    with strandedShot_shot[OF st] f2 sub show ?thesis
      by (simp add: engineInv_def queueOK_Nil)
  next
    case (Cons x xs)
    with run True have sx: "shot = x" and s1: "s1 = ?s2\<lparr>targetQueue := xs\<rparr>"
      and gg: "g1 = g"
      by (simp_all add: getNextShot_def Let_def)
    from q2 Cons have x: "x \<notin> set xs" "distinct xs" "cellOK ?s2 x" "list_all (cellOK ?s2) xs"
      by (simp_all add: queueOK_def)
    have "queueOK s1 xs"
      using x queueOK_shots[of s1 ?s2 xs] by (simp add: s1 queueOK_def)
    moreover have "hits s1 \<noteq> []" using True h2 by (simp add: s1)
    moreover have "shot \<in> set allCells \<and> shot \<notin> shotsFired s"
      using x(3) f2 by (simp add: sx cellOK_def set_allCells hasShot_def)
    ultimately show ?thesis
      using x(1) sub f2 gg by (simp add: engineInv_def s1 sx)
  qed
qed

lemma room_for_a_shot:
  assumes "shotsFired s \<subseteq> set allCells" "card (shotsFired s) < 100"
  shows "\<not> set allCells \<subseteq> shotsFired s"
proof
  assume "set allCells \<subseteq> shotsFired s"
  with assms(1) have "shotsFired s = set allCells" by auto
  then have "card (shotsFired s) = 100"
    using card_allCells by (simp add: distinct_card)
  with assms(2) show False by simp
qed

lemma playTurns_inv:
  assumes "unitDraws g" "engineInv s" "card (shotsFired s) + length reports \<le> 100"
  shows "\<exists>shots s1 g1. playTurns s g reports = Some (shots, s1, g1) \<and>
           distinct shots \<and> set shots \<inter> shotsFired s = {} \<and> set shots \<subseteq> set allCells \<and>
           length shots = length reports \<and> engineInv s1 \<and>
           shotsFired s1 = shotsFired s \<union> set shots \<and> fst g1 = fst g"
  using assms
proof (induction reports arbitrary: s g)
  case Nil
  then show ?case by simp
next
  case (Cons rep reports)
  obtain res sc where rep: "rep = (res, sc)" by (cases rep)
  from getNextShot_total[OF Cons.prems(1), of s]
  obtain shot sa ga where next1: "getNextShot s g = Some (shot, sa, ga)" by auto
  have sub: "shotsFired s \<subseteq> set allCells" using Cons.prems(2) by (simp add: engineInv_def)
  have fin: "finite (shotsFired s)" using sub finite_subset by blast
  have room: "\<not> set allCells \<subseteq> shotsFired s"
    using Cons.prems(3) by (intro room_for_a_shot[OF sub]) simp
  from getNextShot_inv[OF Cons.prems(2) next1] room
  have a: "engineInv sa" "shotsFired sa = shotsFired s" "shot \<notin> set (targetQueue sa)"
    "shot \<in> set allCells" "shot \<notin> shotsFired s" "fst ga = fst g"
    by simp_all
  let ?sb = "fst (reportResult sa shot res sc)"
  from reportResult_inv[OF a(1) a(3) a(4), of res sc] a(2)
  have b: "engineInv ?sb" "shotsFired ?sb = insert shot (shotsFired s)" by simp_all
  have ug: "unitDraws ga" using unitDraws_fst[OF Cons.prems(1) a(6)] .
  have "card (shotsFired ?sb) = Suc (card (shotsFired s))"
    using b(2) a(5) fin by simp
  with Cons.prems(3) have bound: "card (shotsFired ?sb) + length reports \<le> 100" by simp
  from Cons.IH[OF ug b(1) bound]
  obtain shots s1 g1 where rest: "playTurns ?sb ga reports = Some (shots, s1, g1)"
    and d: "distinct shots" "set shots \<inter> shotsFired ?sb = {}" "set shots \<subseteq> set allCells"
      "length shots = length reports" "engineInv s1"
      "shotsFired s1 = shotsFired ?sb \<union> set shots" "fst g1 = fst ga"
    by blast
  have run: "playTurns s g (rep # reports) = Some (shot # shots, s1, g1)"
    using next1 rest by (simp add: rep)
  have "shot \<notin> set shots" using d(2) b(2) by auto
  moreover have "set (shot # shots) \<inter> shotsFired s = {}" using d(2) b(2) a(5) by auto
  moreover have "shotsFired s1 = shotsFired s \<union> set (shot # shots)" using d(6) b(2) by auto
  ultimately show ?case
    using run d a(4) a(6) by simp
qed

lemma engineInv_new: "engineInv newBattleshipAI"
  by (simp add: engineInv_def newBattleshipAI_def queueOK_Nil)

lemma playTurns_append:
  "playTurns s g (xs @ ys) =
     (case playTurns s g xs of
        None \<Rightarrow> None
      | Some (sh1, s1, g1) \<Rightarrow>
          (case playTurns s1 g1 ys of
             None \<Rightarrow> None
           | Some (sh2, s2, g2) \<Rightarrow> Some (sh1 @ sh2, s2, g2)))"
proof (induction xs arbitrary: s g)
  case Nil
  then show ?case by (simp split: option.splits)
next
  case (Cons x xs)
  obtain res sc where x: "x = (res, sc)" by (cases x)
  show ?case
    by (simp add: x Cons.IH split: option.splits prod.splits)
qed

lemma reportMiss_hits: "hits (reportMiss s coord) = hits s"
  by (simp add: reportMiss_def Let_def rebuildTargetQueue_frame)

lemma getNextShot_no_hits:
  assumes "hits s = []" "getNextShot s g = Some (shot, s1, g1)"
  shows "hits s1 = [] \<and> getSmartHuntShot (s\<lparr>mode := Hunt\<rparr>) g = Some (shot, g1)"
  using assms by (auto simp: getNextShot_def Let_def split: option.splits)

lemma playTurns_miss_hits:
  assumes "hits s = []" "playTurns s g (replicate n (Miss, sc)) = Some (shots, s1, g1)"
  shows "hits s1 = []"
  using assms
proof (induction n arbitrary: s g shots)
  case 0
  then show ?case by simp
next
  case (Suc n)
  from Suc.prems(2) obtain shot sa ga where n1: "getNextShot s g = Some (shot, sa, ga)"
    by (auto split: option.splits)
  let ?sb = "fst (reportResult sa shot Miss sc)"
  from Suc.prems(2) n1 obtain rest where r: "playTurns ?sb ga (replicate n (Miss, sc)) = Some (rest, s1, g1)"
    by (auto split: option.splits)
  have "hits sa = []" using getNextShot_no_hits[OF Suc.prems(1) n1] by simp
  then have "hits ?sb = []"
    by (simp add: reportResult_def Let_def reportMiss_hits)
  from Suc.IH[OF this r] show ?case .
qed

lemma hunt_when_all_shot:
  assumes "set allCells \<subseteq> shotsFired s" "getSmartHuntShot s g = Some (shot, g1)"
  shows "shot = Coord 0 0"
proof -
  have shot: "\<And>p. isValid (row p) (col p) \<Longrightarrow> hasShot s (row p) (col p)"
    using assms(1) by (auto simp: set_allCells hasShot_def)
  have n1: "(\<exists>p. isValid (row p) (col p) \<and> (row p + col p) mod 2 = 0 \<and> scoredAt s p) = False"
    using shot by (auto simp: scoredAt_def)
  have n2: "(\<exists>p. isValid (row p) (col p) \<and> scoredAt s p) = False"
    using shot by (auto simp: scoredAt_def)
  have n3: "(\<exists>p. isValid (row p) (col p) \<and> \<not> hasShot s (row p) (col p)) = False"
    using shot by auto
  from getSmartHuntShot_spec[OF assms(2)] show ?thesis
    by (simp only: n1 n2 n3 if_False)
qed

lemma fresh_session:
  assumes "unitDraws g" "length reports \<le> 100"
  shows "\<exists>shots s1 g1. playTurns newBattleshipAI g reports = Some (shots, s1, g1) \<and>
           length shots = length reports \<and> distinct shots \<and>
           list_all (\<lambda>p. isValid (row p) (col p)) shots \<and>
           shotsFired s1 = set shots \<and> engineInv s1 \<and> fst g1 = fst g"
proof -
  have "card (shotsFired newBattleshipAI) + length reports \<le> 100"
    using assms(2) by (simp add: newBattleshipAI_def)
  from playTurns_inv[OF assms(1) engineInv_new this]
  obtain shots s1 g1 where r: "playTurns newBattleshipAI g reports = Some (shots, s1, g1)"
    and d: "distinct shots" "set shots \<subseteq> set allCells" "length shots = length reports"
      "engineInv s1" "shotsFired s1 = shotsFired newBattleshipAI \<union> set shots" "fst g1 = fst g"
    by blast
  from d(2) have "list_all (\<lambda>p. isValid (row p) (col p)) shots"
    by (auto simp: list_all_iff set_allCells)
  moreover from d(5) have "shotsFired s1 = set shots" by (simp add: newBattleshipAI_def)
  ultimately show ?thesis using r d by simp
qed

lemma hundred_and_first_shot:
  "\<exists>shots s1 g1.
     playTurns newBattleshipAI (\<lambda>_. 0, 0) (replicate 101 (Miss, None)) = Some (shots, s1, g1) \<and>
     \<not> distinct shots \<and> last shots = Coord 0 0 \<and> Coord 0 0 \<in> set (butlast shots)"
proof -
  let ?g = "(\<lambda>_. 0, 0) :: rng"
  let ?m = "(Miss, None) :: ShotResult \<times> Coord list option"
  have u: "unitDraws ?g" by (simp add: unitDraws_def)
  from fresh_session[OF u, of "replicate 100 ?m"]
  obtain shots s1 g1 where r: "playTurns newBattleshipAI ?g (replicate 100 ?m) = Some (shots, s1, g1)"
    and d: "length shots = 100" "distinct shots" "list_all (\<lambda>p. isValid (row p) (col p)) shots"
      "shotsFired s1 = set shots" "engineInv s1" "fst g1 = fst ?g"
    by auto
  have h: "hits s1 = []"
    by (rule playTurns_miss_hits[OF _ r]) (simp add: newBattleshipAI_def)
  have "set shots \<subseteq> set allCells"
    using d(3) by (auto simp: list_all_iff set_allCells)
  moreover have "card (set shots) = card (set allCells)"
    using d(1,2) card_allCells by (simp add: distinct_card)
  ultimately have all: "set shots = set allCells"
    by (intro card_subset_eq) simp_all
  have u1: "unitDraws g1" using unitDraws_fst[OF u d(6)] .
  from getNextShot_total[OF u1, of s1]
  obtain shot sa ga where n1: "getNextShot s1 g1 = Some (shot, sa, ga)" by auto
  from getNextShot_no_hits[OF h n1]
  have hs: "getSmartHuntShot (s1\<lparr>mode := Hunt\<rparr>) g1 = Some (shot, ga)" by simp
  have "shot = Coord 0 0"
    by (rule hunt_when_all_shot[OF _ hs]) (simp add: d(4) all)
  with n1 have last1: "playTurns s1 g1 [?m] = Some ([Coord 0 0], fst (reportResult sa (Coord 0 0) Miss None), ga)"
    by simp
  have "replicate (Suc 100) ?m = replicate 100 ?m @ [?m]"
    by (simp only: replicate_Suc replicate_append_same)
  then have "replicate 101 ?m = replicate 100 ?m @ [?m]"
    by simp
  then have run: "playTurns newBattleshipAI ?g (replicate 101 ?m) =
      Some (shots @ [Coord 0 0], fst (reportResult sa (Coord 0 0) Miss None), ga)"
    using r last1 by (simp only: playTurns_append option.case prod.case)
  have "Coord 0 0 \<in> set shots" using all Coord00_cell by simp
  then show ?thesis using run by simp
qed

lemma strandedShot_all_shot:
  assumes "set allCells \<subseteq> shotsFired s" "strandedShot s g = Some (shot, s1, g1)"
  shows "shot = Coord 0 0"
proof -
  obtain vh ga where k: "keepValidHits s (hits s) g = (vh, ga)"
    by (cases "keepValidHits s (hits s) g")
  define s3 where "s3 = (if length vh < length (hits s) then s\<lparr>hits := vh\<rparr> else s)"
  have sh: "shotsFired s3 = shotsFired s" by (simp add: s3_def)
  from assms(2)[unfolded strandedShot_unfold[OF k s3_def]]
  obtain s' where r: "getSmartHuntShot s' ga = Some (shot, g1)" and s': "shotsFired s' = shotsFired s"
    using sh by (auto split: if_splits)
  show ?thesis
    by (rule hunt_when_all_shot[OF _ r]) (simp add: s' assms(1))
qed

lemma getNextShot_all_shot:
  assumes inv: "engineInv s" and all: "set allCells \<subseteq> shotsFired s"
    and run: "getNextShot s g = Some (shot, s1, g1)"
  shows "shot = Coord 0 0"
proof (cases "length (hits s) > 0")
  case False
  then have "hits s = []" by simp
  from getNextShot_no_hits[OF this run]
  have r: "getSmartHuntShot (s\<lparr>mode := Hunt\<rparr>) g = Some (shot, g1)" by simp
  show ?thesis by (rule hunt_when_all_shot[OF _ r]) (simp add: all)
next
  case True
  let ?s2 = "ensureQueue s"
  have q2: "queueOK ?s2 (targetQueue ?s2)"
    using inv by (intro ensureQueue_inv) (simp add: engineInv_def)
  have f2: "shotsFired ?s2 = shotsFired s" by (simp add: ensureQueue_frame)
  have empty: "targetQueue ?s2 = []"
  proof (cases "targetQueue ?s2")
    case Nil
    then show ?thesis .
  next
    case (Cons x xs)
    with q2 have "cellOK ?s2 x" by (simp add: queueOK_def)
    then have "x \<in> set allCells" "x \<notin> shotsFired s"
      using f2 by (simp_all add: cellOK_def set_allCells hasShot_def)
    with all show ?thesis by auto
  qed
  with run True have st: "strandedShot ?s2 g = Some (shot, s1, g1)"
    by (simp add: getNextShot_def Let_def)
  show ?thesis by (rule strandedShot_all_shot[OF _ st]) (simp add: f2 all)
qed

lemma playTurns_all_shot:
  assumes "unitDraws g" "engineInv s" "set allCells \<subseteq> shotsFired s"
  shows "\<exists>s1 g1. playTurns s g reports = Some (replicate (length reports) (Coord 0 0), s1, g1)"
  using assms
proof (induction reports arbitrary: s g)
  case Nil
  then show ?case by simp
next
  case (Cons rep reports)
  obtain res sc where rep: "rep = (res, sc)" by (cases rep)
  from getNextShot_total[OF Cons.prems(1), of s]
  obtain shot sa ga where n1: "getNextShot s g = Some (shot, sa, ga)" by auto
  from getNextShot_all_shot[OF Cons.prems(2,3) n1] have shot: "shot = Coord 0 0" .
  from getNextShot_inv[OF Cons.prems(2) n1]
  have a: "engineInv sa" "shotsFired sa = shotsFired s" "shot \<notin> set (targetQueue sa)"
    "shot \<in> set allCells" "fst ga = fst g"
    by simp_all
  let ?sb = "fst (reportResult sa shot res sc)"
  from reportResult_inv[OF a(1) a(3) a(4), of res sc] a(2)
  have b: "engineInv ?sb" "shotsFired ?sb = insert shot (shotsFired s)" by simp_all
  have ug: "unitDraws ga" using unitDraws_fst[OF Cons.prems(1) a(5)] .
  have all: "set allCells \<subseteq> shotsFired ?sb" using b(2) Cons.prems(3) by auto
  from Cons.IH[OF ug b(1) all]
  obtain s1 g1 where "playTurns ?sb ga reports = Some (replicate (length reports) (Coord 0 0), s1, g1)"
    by blast
  with n1 shot show ?case by (simp add: rep)
qed

lemma whole_session:
  assumes u: "unitDraws g"
  shows "\<exists>shots s1 g1. playTurns newBattleshipAI g reports = Some (shots, s1, g1) \<and>
           length shots = length reports \<and> distinct (take 100 shots) \<and>
           list_all (\<lambda>p. isValid (row p) (col p)) shots \<and>
           drop 100 shots = replicate (length reports - 100) (Coord 0 0)"
proof -
  let ?a = "take 100 reports" and ?b = "drop 100 reports"
  have la: "length ?a \<le> 100" by simp
  from fresh_session[OF u la]
  obtain sh1 s1 g1 where r1: "playTurns newBattleshipAI g ?a = Some (sh1, s1, g1)"
    and d: "length sh1 = length ?a" "distinct sh1" "list_all (\<lambda>p. isValid (row p) (col p)) sh1"
      "shotsFired s1 = set sh1" "engineInv s1" "fst g1 = fst g"
    by blast
  have u1: "unitDraws g1" using unitDraws_fst[OF u d(6)] .
  have valid0: "isValid (row (Coord 0 0)) (col (Coord 0 0))"
    by (simp add: isValid_def BOARD_SIZE_def)
  show ?thesis
  proof (cases "length reports \<le> 100")
    case True
    then have "?a = reports" by simp
    with r1 d True show ?thesis by simp
  next
    case False
    then have l100: "length sh1 = 100" using d(1) by simp
    have "set sh1 \<subseteq> set allCells"
      using d(3) by (auto simp: list_all_iff set_allCells)
    moreover have "card (set sh1) = card (set allCells)"
      using l100 d(2) card_allCells by (simp add: distinct_card)
    ultimately have "set sh1 = set allCells"
      by (intro card_subset_eq) simp_all
    then have all: "set allCells \<subseteq> shotsFired s1" using d(4) by simp
    from playTurns_all_shot[OF u1 d(5) all, of ?b]
    obtain s2 g2 where r2: "playTurns s1 g1 ?b = Some (replicate (length ?b) (Coord 0 0), s2, g2)"
      by blast
    have "playTurns newBattleshipAI g (?a @ ?b) =
            Some (sh1 @ replicate (length ?b) (Coord 0 0), s2, g2)"
      using r1 r2 by (simp only: playTurns_append option.case prod.case)
    then have run: "playTurns newBattleshipAI g reports =
            Some (sh1 @ replicate (length reports - 100) (Coord 0 0), s2, g2)"
      by simp
    have "list_all (\<lambda>p. isValid (row p) (col p)) (sh1 @ replicate (length reports - 100) (Coord 0 0))"
      using d(3) valid0 by (auto simp: list_all_iff)
    with run l100 d(2) False show ?thesis by simp
  qed
qed

lemma playTurns_one_turn:
  "playTurns s g [(res, sc)] =
     (case getNextShot s g of
        None \<Rightarrow> None
      | Some (shot, s1, g1) \<Rightarrow> runCalls s g [Request, Report shot res sc])"
  by (simp split: option.splits)

text \<open>
  C1. In a session that starts from a new or a reset engine and in which requests and
  reports alternate strictly, each report being of the coordinate the request before it
  returned (with any outcome and any sunk list) and no other report being made, every
  request returns, the first 100 requests return 100 different cells of the grid, and
  every later request returns (0,0). The claim as stated fails twice over: with all 100
  cells fired the fallback of \<open>getSmartHuntShot\<close> returns (0,0) again, and a report of
  another coordinate between a request and its own report can rebuild the queue with the
  pending coordinate still in it.
\<close>

theorem no_repeated_shot_in_first_100_turns:
  assumes "unitDraws g"
  shows "\<exists>shots s1 g1.
           playTurns newBattleshipAI g reports = Some (shots, s1, g1) \<and>
           playTurns (reset s0) g reports = Some (shots, s1, g1) \<and>
           length shots = length reports \<and> distinct (take 100 shots) \<and>
           list_all (\<lambda>p. isValid (row p) (col p)) shots \<and>
           drop 100 shots = replicate (length reports - 100) (Coord 0 0)"
proof -
  have "reset s0 = newBattleshipAI" by (simp add: reset_def newBattleshipAI_def)
  with whole_session[OF assms, of reports] show ?thesis by auto
qed

theorem no_repeated_shot_in_first_100_turns_witness:
  "unitDraws (\<lambda>_. 1 / 3, 0) \<and>
   (\<exists>shots s1 g1.
      playTurns newBattleshipAI (\<lambda>_. 1 / 3, 0)
        [(Miss, None), (Hit, None), (Sunk, Some [Coord 0 0, Coord 0 1])] = Some (shots, s1, g1) \<and>
      length shots = 3 \<and> distinct (take 100 shots))"
proof -
  have u: "unitDraws (\<lambda>_. 1 / 3, 0)" by (simp add: unitDraws_def)
  from no_repeated_shot_in_first_100_turns[OF u,
      of "[(Miss, None), (Hit, None), (Sunk, Some [Coord 0 0, Coord 0 1])]" newBattleshipAI]
  show ?thesis using u by auto
qed

theorem repeated_shot_counterexamples:
  "(\<exists>shots s1 g1.
      playTurns newBattleshipAI (\<lambda>_. 0, 0) (replicate 101 (Miss, None)) = Some (shots, s1, g1) \<and>
      \<not> distinct shots \<and> last shots = Coord 0 0 \<and> Coord 0 0 \<in> set (butlast shots)) \<and>
   map_option fst
     (runCalls newBattleshipAI (\<lambda>_. 0, 0)
        [Report (Coord 3 3) Hit None, Request,
         Report (Coord 9 9) Sunk (Some [Coord 9 9]),
         Report (Coord 4 3) Miss None, Request]) = Some [Coord 4 3, Coord 4 3]"
proof
  show "\<exists>shots s1 g1.
      playTurns newBattleshipAI (\<lambda>_. 0, 0) (replicate 101 (Miss, None)) = Some (shots, s1, g1) \<and>
      \<not> distinct shots \<and> last shots = Coord 0 0 \<and> Coord 0 0 \<in> set (butlast shots)"
    by (rule hundred_and_first_shot)
  show "map_option fst
     (runCalls newBattleshipAI (\<lambda>_. 0, 0)
        [Report (Coord 3 3) Hit None, Request,
         Report (Coord 9 9) Sunk (Some [Coord 9 9]),
         Report (Coord 4 3) Miss None, Request]) = Some [Coord 4 3, Coord 4 3]"
    by code_simp
qed

end
